theory Spec2Isabelle
  imports Main "HOL-Library.FSet" "HOL-Library.Product_Lexorder"
begin

section \<open>The Snake engine of gui.py (class SnakeGame)\<close>

text \<open>
  The engine is the class \<open>SnakeGame\<close>: a grid, the snake as a deque of cells (head
  first), three sets of cells (\<open>snake_set\<close>, \<open>apples\<close>, \<open>free_tiles\<close>), two direction
  strings, two flags and the score. Python's integers are unbounded, so coordinates,
  sizes and the score are \<open>int\<close>; Python's \<open>//\<close> and \<open>%\<close> round towards minus
  infinity, as \<open>div\<close> and \<open>mod\<close> on \<open>int\<close> do. Python sets are finite, so they are
  \<open>fset\<close>s. Exceptions are values of \<open>error\<close>.
\<close>

datatype error = ValueError | IndexError | ZeroDivisionError

type_synonym cell = "int \<times> int"

text \<open>The dataclass \<open>SnakeConfig\<close>; its field \<open>apples\<close> is \<open>apples_cfg\<close> here, since
  the engine has a field \<open>apples\<close> of its own.\<close>

record SnakeConfig =
  grid_size :: int
  cell_size :: int
  speed_ms :: int
  apples_cfg :: int
  initial_length :: int
  wrap_walls :: bool
  show_grid :: bool

record SnakeGame =
  grid :: "int list list"
  snake :: "cell list"
  snake_set :: "cell fset"
  apples :: "cell fset"
  free_tiles :: "cell fset"
  direction :: string
  pending_direction :: string
  running :: bool
  alive :: bool
  score :: int

subsection \<open>Python primitives\<close>

text \<open>\<open>range(n)\<close>: the integers from 0 up to \<open>n - 1\<close>, none when \<open>n \<le> 0\<close>.\<close>

definition py_range :: "int \<Rightarrow> int list" where
  "py_range n = [0..n - 1]"

text \<open>\<open>min(...)\<close> and \<open>max(...)\<close> of a generator: ValueError when it is empty.\<close>

definition py_min :: "int list \<Rightarrow> error + int" where
  "py_min xs = (case xs of [] \<Rightarrow> Inl ValueError | x # ys \<Rightarrow> Inr (fold min ys x))"

definition py_max :: "int list \<Rightarrow> error + int" where
  "py_max xs = (case xs of [] \<Rightarrow> Inl ValueError | x # ys \<Rightarrow> Inr (fold max ys x))"

text \<open>List indexing: a negative index counts from the end; out of range raises.\<close>

definition py_index :: "nat \<Rightarrow> int \<Rightarrow> error + nat" where
  "py_index n i =
     (let j = (if i < 0 then i + int n else i)
      in if 0 \<le> j \<and> j < int n then Inr (nat j) else Inl IndexError)"

text \<open>\<open>grid[y][x] = v\<close>: both subscripts are checked, the row first.\<close>

definition grid_set :: "int list list \<Rightarrow> int \<Rightarrow> int \<Rightarrow> int \<Rightarrow> error + int list list" where
  "grid_set g y x v =
     (case py_index (length g) y of
        Inl e \<Rightarrow> Inl e
      | Inr r \<Rightarrow>
          (case py_index (length (g ! r)) x of
             Inl e \<Rightarrow> Inl e
           | Inr c \<Rightarrow> Inr (g[r := (g ! r)[c := v]])))"

text \<open>
  \<open>random.choice(tuple(free_tiles))\<close> returns the element at a random index below the
  length of the tuple. The random number is an input of the model (\<open>r\<close>), reduced below
  the length; the order in which Python enumerates a set is not fixed by the language, the
  model enumerates in increasing order. As \<open>r\<close> ranges over the naturals every element of
  the set is drawn (lemma \<open>choice_any\<close> below), so the outcomes are those of the source.
\<close>

definition choice :: "nat \<Rightarrow> cell fset \<Rightarrow> cell" where
  "choice r F = sorted_list_of_fset F ! (r mod fcard F)"

subsection \<open>replenish\_apples\<close>

text \<open>
  The while loop of \<open>replenish_apples\<close>; \<open>rnd i\<close> is the random number of the \<open>i\<close>-th
  draw of this call.
\<close>

function replenish_loop :: "int \<Rightarrow> (nat \<Rightarrow> nat) \<Rightarrow> nat \<Rightarrow> SnakeGame \<Rightarrow> SnakeGame" where
  "replenish_loop target rnd i s =
     (if int (fcard (apples s)) < target \<and> free_tiles s \<noteq> {||} then
        (let pos = choice (rnd i) (free_tiles s)
         in replenish_loop target rnd (Suc i)
              (s\<lparr>apples := finsert pos (apples s),
                 free_tiles := free_tiles s |-| {|pos|}\<rparr>))
      else s)"
  by pat_completeness auto
termination
proof (relation "measure (\<lambda>(target, rnd, i, s). fcard (free_tiles s))")
  show "wf (measure (\<lambda>(target, rnd, i, s). fcard (free_tiles s)))" by simp
next
  fix target :: int and rnd :: "nat \<Rightarrow> nat" and i :: nat and s :: SnakeGame and pos :: cell
  assume c: "int (fcard (apples s)) < target \<and> free_tiles s \<noteq> {||}"
    and p: "pos = choice (rnd i) (free_tiles s)"
  let ?F = "free_tiles s"
  have len: "length (sorted_list_of_fset ?F) = fcard ?F"
    by (simp add: fcard.rep_eq sorted_list_of_fset.rep_eq)
  have "0 < fcard ?F"
    by (metis c fcard_0_eq neq0_conv)
  then have "rnd i mod fcard ?F < length (sorted_list_of_fset ?F)"
    by (simp add: len)
  then have "sorted_list_of_fset ?F ! (rnd i mod fcard ?F) \<in> set (sorted_list_of_fset ?F)"
    by (rule nth_mem)
  then have "pos |\<in>| ?F"
    by (simp add: p choice_def)
  then have "fcard (?F |-| {|pos|}) < fcard ?F"
    by (rule fcard_fminus1_less)
  then show "((target, rnd, Suc i,
        s\<lparr>apples := finsert pos (apples s), free_tiles := free_tiles s |-| {|pos|}\<rparr>),
       (target, rnd, i, s)) \<in> measure (\<lambda>(target, rnd, i, s). fcard (free_tiles s))"
    by simp
qed

definition replenish_apples :: "SnakeConfig \<Rightarrow> (nat \<Rightarrow> nat) \<Rightarrow> SnakeGame \<Rightarrow> SnakeGame" where
  "replenish_apples cfg rnd s =
     (let target = min (apples_cfg cfg) (int (fcard (free_tiles s)))
      in replenish_loop target rnd 0 s)"

subsection \<open>spawn\_snake and reset\<close>

text \<open>The for loop of \<open>spawn_snake\<close> over the positions.\<close>

fun place_cells :: "cell list \<Rightarrow> SnakeGame \<Rightarrow> error + SnakeGame" where
  "place_cells [] s = Inr s"
| "place_cells ((x, y) # ps) s =
     (case grid_set (grid s) y x 1 of
        Inl e \<Rightarrow> Inl e
      | Inr g \<Rightarrow>
          place_cells ps
            (s\<lparr>snake := snake s @ [(x, y)],
               snake_set := finsert (x, y) (snake_set s),
               free_tiles := free_tiles s |-| {|(x, y)|},
               grid := g\<rparr>))"

definition spawn_snake :: "SnakeConfig \<Rightarrow> int \<Rightarrow> SnakeGame \<Rightarrow> error + SnakeGame" where
  "spawn_snake cfg len s =
     (let size = grid_size cfg;
          center_y = size div 2;
          center_x = size div 2;
          positions = map (\<lambda>i. (center_x - i, center_y)) (py_range len)
      in case py_min (map fst positions) of
           Inl e \<Rightarrow> Inl e
         | Inr min_x \<Rightarrow>
             (case py_max (map fst positions) of
                Inl e \<Rightarrow> Inl e
              | Inr max_x \<Rightarrow>
                  place_cells
                    (if min_x < 0 \<or> max_x \<ge> size then
                       (let tail_x = (size - len) div 2;
                            head_x = tail_x + len - 1
                        in map (\<lambda>i. (head_x - i, center_y)) (py_range len))
                     else positions)
                    s))"

text \<open>The assignments of \<open>reset\<close> before it calls \<open>spawn_snake\<close>.\<close>

definition blank_game :: "int \<Rightarrow> SnakeGame" where
  "blank_game sz =
     \<lparr>grid = map (\<lambda>_. map (\<lambda>_. 0) (py_range sz)) (py_range sz),
      snake = [],
      snake_set = {||},
      apples = {||},
      free_tiles =
        fset_of_list (concat (map (\<lambda>x. map (\<lambda>y. (x, y)) (py_range sz)) (py_range sz))),
      direction = ''right'',
      pending_direction = ''right'',
      running = False,
      alive = True,
      score = 0\<rparr>"

definition reset :: "SnakeConfig \<Rightarrow> (nat \<Rightarrow> nat) \<Rightarrow> error + SnakeGame" where
  "reset cfg rnd =
     (case spawn_snake cfg (initial_length cfg) (blank_game (grid_size cfg)) of
        Inl e \<Rightarrow> Inl e
      | Inr s1 \<Rightarrow> Inr (replenish_apples cfg rnd s1))"

subsection \<open>move\<close>

definition next_head :: "SnakeGame \<Rightarrow> string \<Rightarrow> error + cell" where
  "next_head s d =
     (case snake s of
        [] \<Rightarrow> Inl IndexError
      | (head_x, head_y) # _ \<Rightarrow>
          Inr (if d = ''up'' then (head_x, head_y - 1)
               else if d = ''down'' then (head_x, head_y + 1)
               else if d = ''left'' then (head_x - 1, head_y)
               else (head_x + 1, head_y)))"

definition in_bounds :: "SnakeConfig \<Rightarrow> int \<Rightarrow> int \<Rightarrow> bool" where
  "in_bounds cfg x y = (let size = grid_size cfg in 0 \<le> x \<and> x < size \<and> 0 \<le> y \<and> y < size)"

text \<open>
  The part of \<open>move\<close> from \<open>new_head = (new_x, new_y)\<close> to its end, which both the
  wrapping and the bounded branch run: the collision test against \<open>snake_set\<close>, the
  push of the head, the apple or the pop of the tail, and the replenishing.
\<close>

definition advance :: "SnakeConfig \<Rightarrow> (nat \<Rightarrow> nat) \<Rightarrow> SnakeGame \<Rightarrow> cell \<Rightarrow> error + (bool \<times> SnakeGame)" where
  "advance cfg rnd s new_head =
     (case snake s of
        [] \<Rightarrow> Inl IndexError
      | _ # _ \<Rightarrow>
          (let growing = new_head |\<in>| apples s;
               tail = last (snake s)
           in if new_head |\<in>| snake_set s \<and> \<not> (\<not> growing \<and> new_head = tail) then
                Inr (False, s\<lparr>alive := False\<rparr>)
              else
                (let s2 = s\<lparr>snake := new_head # snake s,
                             snake_set := finsert new_head (snake_set s),
                             free_tiles := free_tiles s |-| {|new_head|}\<rparr>;
                     s3 = (if growing then
                             s2\<lparr>apples := apples s2 |-| {|new_head|}, score := score s2 + 1\<rparr>
                           else
                             (let old_tail = last (snake s2)
                              in s2\<lparr>snake := butlast (snake s2),
                                    snake_set := snake_set s2 |-| {|old_tail|},
                                    free_tiles := finsert old_tail (free_tiles s2)\<rparr>))
                 in Inr (True, replenish_apples cfg rnd s3))))"

definition move :: "SnakeConfig \<Rightarrow> (nat \<Rightarrow> nat) \<Rightarrow> SnakeGame \<Rightarrow> error + (bool \<times> SnakeGame)" where
  "move cfg rnd s =
     (if \<not> alive s then Inr (False, s)
      else
        (let s1 = s\<lparr>direction := pending_direction s\<rparr>
         in case next_head s1 (direction s1) of
              Inl e \<Rightarrow> Inl e
            | Inr (new_x, new_y) \<Rightarrow>
                if wrap_walls cfg then
                  (let size = grid_size cfg
                   in if size = 0 then Inl ZeroDivisionError
                      else advance cfg rnd s1 (new_x mod size, new_y mod size))
                else if \<not> in_bounds cfg new_x new_y then Inr (False, s1\<lparr>alive := False\<rparr>)
                else advance cfg rnd s1 (new_x, new_y)))"

subsection \<open>queue\_direction\<close>

definition opposites :: "(string \<times> string) list" where
  "opposites = [(''up'', ''down''), (''down'', ''up''), (''left'', ''right''), (''right'', ''left'')]"

definition queue_direction :: "string \<Rightarrow> SnakeGame \<Rightarrow> SnakeGame" where
  "queue_direction new_direction s =
     (case map_of opposites new_direction of
        None \<Rightarrow> s
      | Some opp \<Rightarrow>
          if length (snake s) > 1 \<and> opp = direction s then s
          else s\<lparr>pending_direction := new_direction\<rparr>)"

subsection \<open>Sequences of calls\<close>

text \<open>
  The presentation driver calls \<open>move\<close> on its timer and \<open>queue_direction\<close> on key
  events; a restart builds the engine again with \<open>reset\<close>. A state is reachable when
  such a sequence of calls, under some outcome of the random draws and with no exception
  raised, ends in it.
\<close>

inductive reachable :: "SnakeConfig \<Rightarrow> SnakeGame \<Rightarrow> bool" for cfg :: SnakeConfig where
  reach_reset: "reset cfg rnd = Inr s \<Longrightarrow> reachable cfg s"
| reach_move: "reachable cfg s \<Longrightarrow> move cfg rnd s = Inr (ok, s') \<Longrightarrow> reachable cfg s'"
| reach_queue: "reachable cfg s \<Longrightarrow> reachable cfg (queue_direction d s)"

text \<open>The same as a function, for running a given sequence of calls.\<close>

datatype call = Move "nat \<Rightarrow> nat" | Queue string

fun play :: "SnakeConfig \<Rightarrow> call list \<Rightarrow> SnakeGame \<Rightarrow> error + SnakeGame" where
  "play cfg [] s = Inr s"
| "play cfg (Move rnd # cs) s =
     (case move cfg rnd s of Inl e \<Rightarrow> Inl e | Inr (ok, s') \<Rightarrow> play cfg cs s')"
| "play cfg (Queue d # cs) s = play cfg cs (queue_direction d s)"

definition game_after :: "SnakeConfig \<Rightarrow> (nat \<Rightarrow> nat) \<Rightarrow> call list \<Rightarrow> error + SnakeGame" where
  "game_after cfg rnd cs = (case reset cfg rnd of Inl e \<Rightarrow> Inl e | Inr s \<Rightarrow> play cfg cs s)"

subsection \<open>Auxiliary definitions\<close>

text \<open>
  The positions \<open>spawn_snake\<close> places, in closed form: the head's column is the centre,
  or the anchored one when the centred line would leave the grid (lemma
  \<open>spawn_snake_eq\<close> relates it to the code).
\<close>

definition spawn_positions :: "SnakeConfig \<Rightarrow> int \<Rightarrow> cell list" where
  "spawn_positions cfg len =
     (let size = grid_size cfg;
          c = size div 2;
          head_x = (if c - (len - 1) < 0 \<or> c \<ge> size then (size - len) div 2 + len - 1 else c)
      in map (\<lambda>i. (head_x - i, c)) (py_range len))"

text \<open>\<open>SnakeConfig()\<close> with the defaults of the dataclass.\<close>

definition default_config :: SnakeConfig where
  "default_config =
     \<lparr>grid_size = 20, cell_size = 28, speed_ms = 100, apples_cfg = 3, initial_length = 3,
      wrap_walls = False, show_grid = True\<rparr>"

text \<open>The configuration of the scenario with a 4 by 4 grid and five apples.\<close>

definition scenario_config :: SnakeConfig where
  "scenario_config =
     \<lparr>grid_size = 4, cell_size = 28, speed_ms = 100, apples_cfg = 5, initial_length = 3,
      wrap_walls = False, show_grid = True\<rparr>"

text \<open>
  The cell \<open>move\<close> tests and pushes as the new head, from the coordinates
  \<open>_next_head\<close> returns: wrapped when \<open>wrap_walls\<close> is set.
\<close>

definition candidate :: "SnakeConfig \<Rightarrow> int \<Rightarrow> int \<Rightarrow> cell" where
  "candidate cfg x y =
     (if wrap_walls cfg then (x mod grid_size cfg, y mod grid_size cfg) else (x, y))"

text \<open>
  What \<open>move\<close> has done to the state when it calls \<open>replenish_apples\<close>: after a
  growing move (\<open>grown\<close>) and after a move that pops the tail (\<open>slid\<close>); lemma
  \<open>move_result\<close> relates them to the code.
\<close>

definition grown :: "SnakeGame \<Rightarrow> cell \<Rightarrow> SnakeGame" where
  "grown s n =
     s\<lparr>direction := pending_direction s,
       snake := n # snake s,
       snake_set := finsert n (snake_set s),
       free_tiles := free_tiles s |-| {|n|},
       apples := apples s |-| {|n|},
       score := score s + 1\<rparr>"

definition slid :: "SnakeGame \<Rightarrow> cell \<Rightarrow> SnakeGame" where
  "slid s n =
     s\<lparr>direction := pending_direction s,
       snake := n # butlast (snake s),
       snake_set := finsert n (snake_set s) |-| {|last (snake s)|},
       free_tiles := finsert (last (snake s)) (free_tiles s |-| {|n|})\<rparr>"

text \<open>
  Every cell of the grid is in one of the three sets, and the apples are at the target of
  \<open>replenish_apples\<close>: an invariant of the reachable states (lemma \<open>reachable_covered\<close>).
\<close>

definition covered :: "SnakeConfig \<Rightarrow> SnakeGame \<Rightarrow> bool" where
  "covered cfg s =
     (0 < grid_size cfg \<and>
      (\<forall>x y. in_bounds cfg x y \<longrightarrow> (x, y) |\<in>| snake_set s |\<union>| apples s |\<union>| free_tiles s) \<and>
      min (apples_cfg cfg) (int (fcard (free_tiles s))) \<le> int (fcard (apples s)))"

subsection \<open>Configurations, states and runs used as examples\<close>

text \<open>The random source that always draws index 0: the least free tile.\<close>

definition draw_first :: "nat \<Rightarrow> nat" where
  "draw_first = (\<lambda>_. 0)"

text \<open>
  The state after \<open>reset\<close> of \<open>scenario_config\<close> when every draw is 11 (lemma
  \<open>scenario_start_reset\<close>): the first apple is placed right of the head.
\<close>

definition scenario_start :: SnakeGame where
  "scenario_start =
     \<lparr>grid = [[0, 0, 0, 0], [0, 0, 0, 0], [1, 1, 1, 0], [0, 0, 0, 0]],
      snake = [(2, 2), (1, 2), (0, 2)],
      snake_set = {|(0, 2), (1, 2), (2, 2)|},
      apples = {|(1, 1), (0, 3), (0, 0), (3, 3), (3, 2)|},
      free_tiles = {|(0, 1), (1, 0), (1, 3), (2, 0), (2, 1), (2, 3), (3, 0), (3, 1)|},
      direction = ''right'', pending_direction = ''right'',
      running = False, alive = True, score = 0\<rparr>"

text \<open>A 3 by 3 grid with a snake of three: after \<open>reset\<close> the head is at the right edge.\<close>

definition edge_config :: SnakeConfig where
  "edge_config =
     \<lparr>grid_size = 3, cell_size = 28, speed_ms = 100, apples_cfg = 1, initial_length = 3,
      wrap_walls = False, show_grid = True\<rparr>"

text \<open>
  A 4 by 4 grid with a snake of three and thirteen apples configured: \<open>reset\<close> turns
  every free tile into an apple. \<open>fill_calls\<close> steers the snake over all of them and
  then queues the turn towards its tail; \<open>full_grid\<close> is the state that run ends in
  (lemma \<open>full_grid_run\<close>) and \<open>after_full_grid\<close> the state after one more
  \<open>move\<close> (lemma \<open>full_grid_move\<close>).
\<close>

definition full_config :: SnakeConfig where
  "full_config =
     \<lparr>grid_size = 4, cell_size = 28, speed_ms = 100, apples_cfg = 13, initial_length = 3,
      wrap_walls = False, show_grid = True\<rparr>"

definition fill_calls :: "call list" where
  "fill_calls =
     [Queue ''up'', Move draw_first, Queue ''left'', Move draw_first, Move draw_first,
      Queue ''up'', Move draw_first, Queue ''right'', Move draw_first, Move draw_first,
      Move draw_first, Queue ''down'', Move draw_first, Move draw_first, Move draw_first,
      Queue ''left'', Move draw_first, Move draw_first, Move draw_first, Queue ''up'']"

definition full_grid :: SnakeGame where
  "full_grid =
     \<lparr>grid = [[0, 0, 0, 0], [0, 0, 0, 0], [1, 1, 1, 0], [0, 0, 0, 0]],
      snake = [(0, 3), (1, 3), (2, 3), (3, 3), (3, 2), (3, 1), (3, 0), (2, 0),
               (1, 0), (0, 0), (0, 1), (1, 1), (2, 1), (2, 2), (1, 2), (0, 2)],
      snake_set = {|(0, 3), (1, 3), (2, 3), (3, 3), (3, 2), (3, 1), (3, 0), (2, 0),
                    (1, 0), (0, 0), (0, 1), (1, 1), (2, 1), (2, 2), (1, 2), (0, 2)|},
      apples = {||},
      free_tiles = {||},
      direction = ''left'', pending_direction = ''up'',
      running = False, alive = True, score = 13\<rparr>"

definition after_full_grid :: SnakeGame where
  "after_full_grid =
     \<lparr>grid = [[0, 0, 0, 0], [0, 0, 0, 0], [1, 1, 1, 0], [0, 0, 0, 0]],
      snake = [(0, 2), (0, 3), (1, 3), (2, 3), (3, 3), (3, 2), (3, 1), (3, 0), (2, 0),
               (1, 0), (0, 0), (0, 1), (1, 1), (2, 1), (2, 2), (1, 2)],
      snake_set = {|(0, 3), (1, 3), (2, 3), (3, 3), (3, 2), (3, 1), (3, 0), (2, 0),
                    (1, 0), (0, 0), (0, 1), (1, 1), (2, 1), (2, 2), (1, 2)|},
      apples = {|(0, 2)|},
      free_tiles = {||},
      direction = ''up'', pending_direction = ''up'',
      running = False, alive = True, score = 13\<rparr>"

text \<open>
  An 8 by 8 grid with one apple and a snake of six. \<open>cross_calls\<close> bends the snake into
  a 2 by 3 block, steps onto the tail, walks around the cell it then stands on, and queues
  the turn back into it.
\<close>

definition six_config :: SnakeConfig where
  "six_config =
     \<lparr>grid_size = 8, cell_size = 28, speed_ms = 100, apples_cfg = 1, initial_length = 6,
      wrap_walls = False, show_grid = True\<rparr>"

definition cross_calls :: "call list" where
  "cross_calls =
     [Queue ''up'', Move draw_first, Queue ''left'', Move draw_first, Move draw_first,
      Queue ''down'', Move draw_first, Move draw_first, Queue ''right'', Move draw_first,
      Queue ''up'', Move draw_first, Queue ''left'']"

text \<open>
  An 8 by 8 grid with one apple and a snake of four. \<open>apple_calls\<close> bends the snake into
  a 2 by 2 block, steps onto the tail, eats the apple below (the draw 27 puts the next
  apple on the cell just left), and moves on until that cell is the popped tail.
\<close>

definition four_config :: SnakeConfig where
  "four_config =
     \<lparr>grid_size = 8, cell_size = 28, speed_ms = 100, apples_cfg = 1, initial_length = 4,
      wrap_walls = False, show_grid = True\<rparr>"

definition apple_calls :: "call list" where
  "apple_calls =
     [Queue ''up'', Move draw_first, Queue ''left'', Move draw_first, Queue ''down'',
      Move draw_first, Move (\<lambda>_. 27), Move draw_first, Move draw_first, Queue ''left'',
      Move draw_first, Move draw_first]"

text \<open>
  An 8 by 8 grid with a snake of two and 62 apples configured: \<open>reset\<close> turns every
  free tile into an apple. \<open>big_path\<close> is a path from the head over all 62 of them that
  ends next to the tail, and \<open>big_calls\<close> steers the snake along it.
\<close>

definition big_config :: SnakeConfig where
  "big_config =
     \<lparr>grid_size = 8, cell_size = 28, speed_ms = 100, apples_cfg = 62, initial_length = 2,
      wrap_walls = False, show_grid = True\<rparr>"

definition big_path :: "cell list" where
  "big_path =
     [(5, 4), (6, 4), (7, 4), (7, 5), (6, 5), (5, 5), (4, 5), (3, 5), (2, 5), (1, 5), (1, 6),
      (2, 6), (3, 6), (4, 6), (5, 6), (6, 6), (7, 6), (7, 7), (6, 7), (5, 7), (4, 7), (3, 7),
      (2, 7), (1, 7), (0, 7), (0, 6), (0, 5), (0, 4), (0, 3), (0, 2), (0, 1), (0, 0), (1, 0),
      (2, 0), (3, 0), (4, 0), (5, 0), (6, 0), (7, 0), (7, 1), (6, 1), (5, 1), (4, 1), (3, 1),
      (2, 1), (1, 1), (1, 2), (2, 2), (3, 2), (4, 2), (5, 2), (6, 2), (7, 2), (7, 3), (6, 3),
      (5, 3), (4, 3), (3, 3), (2, 3), (1, 3), (1, 4), (2, 4)]"

definition big_calls :: "(nat \<Rightarrow> nat) \<Rightarrow> call list" where
  "big_calls rnd =
     [Move rnd, Move rnd, Move rnd, Queue ''down'', Move rnd, Queue ''left'', Move rnd, Move
      rnd, Move rnd, Move rnd, Move rnd, Move rnd, Queue ''down'', Move rnd, Queue ''right'',
      Move rnd, Move rnd, Move rnd, Move rnd, Move rnd, Move rnd, Queue ''down'', Move rnd,
      Queue ''left'', Move rnd, Move rnd, Move rnd, Move rnd, Move rnd, Move rnd, Move rnd,
      Queue ''up'', Move rnd, Move rnd, Move rnd, Move rnd, Move rnd, Move rnd, Move rnd,
      Queue ''right'', Move rnd, Move rnd, Move rnd, Move rnd, Move rnd, Move rnd, Move rnd,
      Queue ''down'', Move rnd, Queue ''left'', Move rnd, Move rnd, Move rnd, Move rnd, Move
      rnd, Move rnd, Queue ''down'', Move rnd, Queue ''right'', Move rnd, Move rnd, Move rnd,
      Move rnd, Move rnd, Move rnd, Queue ''down'', Move rnd, Queue ''left'', Move rnd, Move
      rnd, Move rnd, Move rnd, Move rnd, Move rnd, Queue ''down'', Move rnd, Queue ''right'',
      Move rnd]"

section \<open>Properties of replenish\_apples\<close>

declare replenish_loop.simps [simp del]

lemma choice_in:
  assumes "F \<noteq> {||}"
  shows "choice r F |\<in>| F"
proof -
  have len: "length (sorted_list_of_fset F) = fcard F"
    by (simp add: fcard.rep_eq sorted_list_of_fset.rep_eq)
  have "0 < fcard F"
    by (metis assms fcard_0_eq neq0_conv)
  then have "r mod fcard F < length (sorted_list_of_fset F)"
    by (simp add: len)
  then have "sorted_list_of_fset F ! (r mod fcard F) \<in> set (sorted_list_of_fset F)"
    by (rule nth_mem)
  then show ?thesis by (simp add: choice_def)
qed

lemma choice_any:
  assumes "p |\<in>| F"
  shows "\<exists>r. choice r F = p"
proof -
  have len: "length (sorted_list_of_fset F) = fcard F"
    by (simp add: fcard.rep_eq sorted_list_of_fset.rep_eq)
  from assms have "p \<in> set (sorted_list_of_fset F)" by simp
  then obtain k where k: "k < length (sorted_list_of_fset F)" "sorted_list_of_fset F ! k = p"
    by (meson in_set_conv_nth)
  then have "choice k F = p" by (simp add: choice_def len)
  then show ?thesis ..
qed

lemma replenish_loop_stop:
  assumes "\<not> (int (fcard (apples s)) < target \<and> free_tiles s \<noteq> {||})"
  shows "replenish_loop target rnd i s = s"
  by (subst replenish_loop.simps, rule if_not_P, rule assms)

lemma replenish_loop_step:
  assumes "int (fcard (apples s)) < target \<and> free_tiles s \<noteq> {||}"
  shows "replenish_loop target rnd i s =
         replenish_loop target rnd (Suc i)
           (s\<lparr>apples := finsert (choice (rnd i) (free_tiles s)) (apples s),
              free_tiles := free_tiles s |-| {|choice (rnd i) (free_tiles s)|}\<rparr>)"
  by (subst replenish_loop.simps, subst if_P, rule assms, simp only: Let_def)

lemma replenish_loop_frame:
  "(replenish_loop target rnd i s)\<lparr>apples := a, free_tiles := f\<rparr> = s\<lparr>apples := a, free_tiles := f\<rparr>"
proof (induction target rnd i s rule: replenish_loop.induct)
  case (1 target rnd i s)
  show ?case
  proof (cases "int (fcard (apples s)) < target \<and> free_tiles s \<noteq> {||}")
    case True
    then show ?thesis
      using "1.IH" [OF True refl] by (simp add: replenish_loop_step)
  next
    case False
    show ?thesis by (simp add: replenish_loop_stop [OF False])
  qed
qed

lemma replenish_loop_sets:
  "free_tiles (replenish_loop target rnd i s) |\<subseteq>| free_tiles s \<and>
   apples (replenish_loop target rnd i s) =
     apples s |\<union>| (free_tiles s |-| free_tiles (replenish_loop target rnd i s))"
proof (induction target rnd i s rule: replenish_loop.induct)
  case (1 target rnd i s)
  show ?case
  proof (cases "int (fcard (apples s)) < target \<and> free_tiles s \<noteq> {||}")
    case True
    have "choice (rnd i) (free_tiles s) |\<in>| free_tiles s" using True choice_in by simp
    then show ?thesis
      using "1.IH" [OF True refl] by (simp only: replenish_loop_step [OF True]) auto
  next
    case False
    show ?thesis by (simp add: replenish_loop_stop [OF False])
  qed
qed

lemma replenish_loop_count:
  "target \<le> int (fcard (apples s |\<union>| free_tiles s)) \<Longrightarrow>
   int (fcard (apples (replenish_loop target rnd i s))) = max (int (fcard (apples s))) target"
proof (induction target rnd i s rule: replenish_loop.induct)
  case (1 target rnd i s)
  show ?case
  proof (cases "int (fcard (apples s)) < target \<and> free_tiles s \<noteq> {||}")
    case True
    let ?pos = "choice (rnd i) (free_tiles s)"
    let ?s' = "s\<lparr>apples := finsert ?pos (apples s), free_tiles := free_tiles s |-| {|?pos|}\<rparr>"
    have pin: "?pos |\<in>| free_tiles s" using True choice_in by simp
    have un: "apples ?s' |\<union>| free_tiles ?s' = apples s |\<union>| free_tiles s"
      using pin by auto
    have ih: "int (fcard (apples (replenish_loop target rnd (Suc i) ?s'))) = max (int (fcard (apples ?s'))) target"
      using "1.IH" [OF True refl] "1.prems" un by simp
    have "fcard (apples ?s') \<le> Suc (fcard (apples s))"
      by (simp add: fcard_finsert_if)
    moreover have "fcard (apples s) \<le> fcard (apples ?s')"
      by (simp add: fcard_finsert_le)
    ultimately have "max (int (fcard (apples ?s'))) target = max (int (fcard (apples s))) target"
      using True by linarith
    then show ?thesis
      using ih by (simp only: replenish_loop_step [OF True])
  next
    case False
    have "target \<le> int (fcard (apples s))"
    proof (cases "free_tiles s = {||}")
      case True
      then show ?thesis using "1.prems" by simp
    next
      case nonempty: False
      then show ?thesis using False by simp
    qed
    then show ?thesis by (simp add: replenish_loop_stop [OF False])
  qed
qed

section \<open>Properties of spawn\_snake and reset\<close>

lemma set_py_range: "set (py_range n) = {0..<n}"
  by (auto simp: py_range_def)

lemma length_py_range: "length (py_range n) = nat n"
  by (simp add: py_range_def)

lemma distinct_py_range: "distinct (py_range n)"
  by (simp add: py_range_def)

lemma py_range_nonempty: "1 \<le> n \<Longrightarrow> py_range n = 0 # [1..n - 1]"
  by (simp add: py_range_def upto_rec1)

lemma py_range_empty: "n \<le> 0 \<Longrightarrow> py_range n = []"
  by (simp add: py_range_def)

lemma all_cells_iff:
  "(x, y) |\<in>| free_tiles (blank_game n) \<longleftrightarrow> 0 \<le> x \<and> x < n \<and> 0 \<le> y \<and> y < n"
  by (force simp: blank_game_def fset_of_list_elem set_py_range)

lemma py_min_line:
  assumes "1 \<le> n"
  shows "py_min (map fst (map (\<lambda>i. (c - i, d)) (py_range n))) = Inr (c - (n - 1))"
proof -
  let ?xs = "map (\<lambda>i. c - i) (py_range n)"
  have eq: "map fst (map (\<lambda>i. (c - i, d)) (py_range n)) = ?xs" by (simp add: comp_def)
  obtain x ys where xy: "?xs = x # ys" using assms by (simp add: py_range_nonempty)
  have "fold min ys x = Min (set ?xs)" by (simp only: xy Min.set_eq_fold)
  also have "set ?xs = (\<lambda>i. c - i) ` {0..<n}" by (simp add: set_py_range)
  also have "Min ((\<lambda>i. c - i) ` {0..<n}) = c - (n - 1)"
  proof (rule Min_eqI)
    show "finite ((\<lambda>i. c - i) ` {0..<n})" by simp
    show "\<And>y. y \<in> (\<lambda>i. c - i) ` {0..<n} \<Longrightarrow> c - (n - 1) \<le> y" by auto
    show "c - (n - 1) \<in> (\<lambda>i. c - i) ` {0..<n}" using assms by auto
  qed
  finally have "fold min ys x = c - (n - 1)" .
  then show ?thesis unfolding py_min_def eq xy by simp
qed

lemma py_max_line:
  assumes "1 \<le> n"
  shows "py_max (map fst (map (\<lambda>i. (c - i, d)) (py_range n))) = Inr c"
proof -
  let ?xs = "map (\<lambda>i. c - i) (py_range n)"
  have eq: "map fst (map (\<lambda>i. (c - i, d)) (py_range n)) = ?xs" by (simp add: comp_def)
  obtain x ys where xy: "?xs = x # ys" using assms by (simp add: py_range_nonempty)
  have "fold max ys x = Max (set ?xs)" by (simp only: xy Max.set_eq_fold)
  also have "set ?xs = (\<lambda>i. c - i) ` {0..<n}" by (simp add: set_py_range)
  also have "Max ((\<lambda>i. c - i) ` {0..<n}) = c"
  proof (rule Max_eqI)
    show "finite ((\<lambda>i. c - i) ` {0..<n})" by simp
    show "\<And>y. y \<in> (\<lambda>i. c - i) ` {0..<n} \<Longrightarrow> y \<le> c" by auto
    show "c \<in> (\<lambda>i. c - i) ` {0..<n}" using assms by force
  qed
  finally have "fold max ys x = c" .
  then show ?thesis unfolding py_max_def eq xy by simp
qed

lemma spawn_snake_eq:
  "spawn_snake cfg len s =
     (if len \<le> 0 then Inl ValueError else place_cells (spawn_positions cfg len) s)"
proof (cases "len \<le> 0")
  case True
  then show ?thesis by (simp add: spawn_snake_def py_range_empty py_min_def)
next
  case False
  then have len: "1 \<le> len" by simp
  show ?thesis
    unfolding spawn_snake_def Let_def py_min_line [OF len] py_max_line [OF len]
    using False by (simp add: spawn_positions_def Let_def)
qed

lemma fminus_single_twice: "A |-| {|a|} |-| B = A |-| finsert a B"
  by (rule fset_eqI) auto

lemma place_cells_result:
  "place_cells ps s = Inr s' \<Longrightarrow>
     (\<exists>g. s' = s\<lparr>snake := snake s @ ps,
                 snake_set := snake_set s |\<union>| fset_of_list ps,
                 free_tiles := free_tiles s |-| fset_of_list ps,
                 grid := g\<rparr>)"
proof (induction ps arbitrary: s)
  case Nil
  then show ?case by (auto intro: exI [of _ "grid s"])
next
  case (Cons p ps)
  obtain x y where p: "p = (x, y)" by (cases p)
  from Cons.prems obtain g where g: "grid_set (grid s) y x 1 = Inr g"
    and rest: "place_cells ps (s\<lparr>snake := snake s @ [(x, y)],
               snake_set := finsert (x, y) (snake_set s),
               free_tiles := free_tiles s |-| {|(x, y)|},
               grid := g\<rparr>) = Inr s'"
    by (auto simp: p split: sum.splits)
  from Cons.IH [OF rest] obtain g' where "s' = s\<lparr>snake := snake s @ [(x, y)],
               snake_set := finsert (x, y) (snake_set s),
               free_tiles := free_tiles s |-| {|(x, y)|},
               grid := g\<rparr>\<lparr>snake := (snake s @ [(x, y)]) @ ps,
                 snake_set := finsert (x, y) (snake_set s) |\<union>| fset_of_list ps,
                 free_tiles := free_tiles s |-| {|(x, y)|} |-| fset_of_list ps,
                 grid := g'\<rparr>" by auto
  then have "s' = s\<lparr>snake := snake s @ p # ps,
                 snake_set := snake_set s |\<union>| fset_of_list (p # ps),
                 free_tiles := free_tiles s |-| fset_of_list (p # ps),
                 grid := g'\<rparr>"
    by (simp add: p fminus_single_twice)
  then show ?case by blast
qed

lemma replenish_loop_fields:
  "snake (replenish_loop t rnd i s) = snake s"
  "snake_set (replenish_loop t rnd i s) = snake_set s"
  "grid (replenish_loop t rnd i s) = grid s"
  "direction (replenish_loop t rnd i s) = direction s"
  "pending_direction (replenish_loop t rnd i s) = pending_direction s"
  "running (replenish_loop t rnd i s) = running s"
  "alive (replenish_loop t rnd i s) = alive s"
  "score (replenish_loop t rnd i s) = score s"
proof -
  let ?L = "replenish_loop t rnd i s"
  have e: "?L\<lparr>apples := {||}, free_tiles := {||}\<rparr> = s\<lparr>apples := {||}, free_tiles := {||}\<rparr>"
    by (rule replenish_loop_frame)
  from arg_cong [OF e, of snake] show "snake ?L = snake s" by simp
  from arg_cong [OF e, of snake_set] show "snake_set ?L = snake_set s" by simp
  from arg_cong [OF e, of grid] show "grid ?L = grid s" by simp
  from arg_cong [OF e, of direction] show "direction ?L = direction s" by simp
  from arg_cong [OF e, of pending_direction] show "pending_direction ?L = pending_direction s" by simp
  from arg_cong [OF e, of running] show "running ?L = running s" by simp
  from arg_cong [OF e, of alive] show "alive ?L = alive s" by simp
  from arg_cong [OF e, of score] show "score ?L = score s" by simp
qed

lemma replenish_apples_fields [simp]:
  "snake (replenish_apples cfg rnd s) = snake s"
  "snake_set (replenish_apples cfg rnd s) = snake_set s"
  "grid (replenish_apples cfg rnd s) = grid s"
  "direction (replenish_apples cfg rnd s) = direction s"
  "pending_direction (replenish_apples cfg rnd s) = pending_direction s"
  "running (replenish_apples cfg rnd s) = running s"
  "alive (replenish_apples cfg rnd s) = alive s"
  "score (replenish_apples cfg rnd s) = score s"
  by (simp_all add: replenish_apples_def replenish_loop_fields)

lemma replenish_apples_free: "free_tiles (replenish_apples cfg rnd s) |\<subseteq>| free_tiles s"
  using replenish_loop_sets by (simp add: replenish_apples_def)

lemma replenish_apples_apples:
  "apples (replenish_apples cfg rnd s) =
     apples s |\<union>| (free_tiles s |-| free_tiles (replenish_apples cfg rnd s))"
  using replenish_loop_sets by (simp add: replenish_apples_def)

lemma replenish_apples_union:
  "apples (replenish_apples cfg rnd s) |\<union>| free_tiles (replenish_apples cfg rnd s) =
     apples s |\<union>| free_tiles s"
  using replenish_apples_free [of cfg rnd s] replenish_apples_apples [of cfg rnd s]
  by auto

lemma replenish_apples_count:
  "int (fcard (apples (replenish_apples cfg rnd s))) =
     max (int (fcard (apples s))) (min (apples_cfg cfg) (int (fcard (free_tiles s))))"
proof -
  have "fcard (free_tiles s) \<le> fcard (apples s |\<union>| free_tiles s)"
    by (rule fcard_mono) auto
  then have "min (apples_cfg cfg) (int (fcard (free_tiles s))) \<le> int (fcard (apples s |\<union>| free_tiles s))"
    by simp
  then show ?thesis
    by (simp add: replenish_apples_def replenish_loop_count)
qed

lemma replenish_apples_no_free: "free_tiles s = {||} \<Longrightarrow> replenish_apples cfg rnd s = s"
  by (simp add: replenish_apples_def replenish_loop_stop)

lemma replenish_apples_at_target:
  assumes "min (apples_cfg cfg) (int (fcard (free_tiles s))) \<le> int (fcard (apples s))"
  shows "replenish_apples cfg rnd s = s"
proof -
  let ?t = "min (apples_cfg cfg) (int (fcard (free_tiles s)))"
  have "\<not> (int (fcard (apples s)) < ?t \<and> free_tiles s \<noteq> {||})"
    using assms by linarith
  then have "replenish_loop ?t rnd 0 s = s" by (rule replenish_loop_stop)
  then show ?thesis by (simp only: replenish_apples_def Let_def)
qed

lemma grid_set_ok:
  assumes "length g = n" and "\<forall>r \<in> set g. length r = n"
    and "0 \<le> x" and "x < int n" and "0 \<le> y" and "y < int n"
  shows "\<exists>g'. grid_set g y x v = Inr g' \<and> length g' = n \<and> (\<forall>r \<in> set g'. length r = n)"
proof -
  have ny: "nat y < length g" using assms(1,5,6) by linarith
  have nx: "nat x < n" using assms(3,4) by linarith
  have iy: "py_index (length g) y = Inr (nat y)"
    using assms(1,5,6) by (simp add: py_index_def)
  have row: "length (g ! nat y) = n"
    using assms(2) nth_mem [OF ny] by blast
  have ix: "py_index (length (g ! nat y)) x = Inr (nat x)"
    using assms(3,4) by (simp add: py_index_def row)
  let ?g' = "g[nat y := (g ! nat y)[nat x := v]]"
  have 1: "grid_set g y x v = Inr ?g'"
    unfolding grid_set_def iy by (simp add: ix)
  have 2: "length ?g' = n" using assms(1) by simp
  have 3: "\<forall>r \<in> set ?g'. length r = n"
  proof
    fix r assume "r \<in> set ?g'"
    then have "r = (g ! nat y)[nat x := v] \<or> r \<in> set g"
      using set_update_subset_insert [of g "nat y" "(g ! nat y)[nat x := v]"] by blast
    then show "length r = n"
    proof
      assume "r = (g ! nat y)[nat x := v]"
      then show ?thesis by (simp add: row)
    next
      assume "r \<in> set g"
      then show ?thesis using assms(2) by blast
    qed
  qed
  from 1 2 3 show ?thesis by blast
qed

lemma place_cells_ok:
  assumes "length (grid s) = n" and "\<forall>r \<in> set (grid s). length r = n"
    and "\<forall>p \<in> set ps. 0 \<le> fst p \<and> fst p < int n \<and> 0 \<le> snd p \<and> snd p < int n"
  shows "\<exists>s'. place_cells ps s = Inr s'"
  using assms
proof (induction ps arbitrary: s)
  case Nil
  then show ?case by simp
next
  case (Cons p ps)
  obtain x y where p: "p = (x, y)" by (cases p)
  from Cons.prems p have b: "0 \<le> x" "x < int n" "0 \<le> y" "y < int n" by auto
  from grid_set_ok [OF Cons.prems(1) Cons.prems(2) b, of 1]
  obtain g' where g': "grid_set (grid s) y x 1 = Inr g'" "length g' = n" "\<forall>r \<in> set g'. length r = n"
    by blast
  let ?s = "s\<lparr>snake := snake s @ [(x, y)],
               snake_set := finsert (x, y) (snake_set s),
               free_tiles := free_tiles s |-| {|(x, y)|},
               grid := g'\<rparr>"
  have "\<exists>s'. place_cells ps ?s = Inr s'"
    by (rule Cons.IH) (use g' Cons.prems in auto)
  then show ?case by (simp add: p g')
qed

lemma blank_game_grid:
  "length (grid (blank_game n)) = nat n" "\<forall>r \<in> set (grid (blank_game n)). length r = nat n"
  by (auto simp: blank_game_def length_py_range)

lemma spawn_positions_in_bounds:
  assumes "1 \<le> len" and "len \<le> grid_size cfg"
  shows "\<forall>p \<in> set (spawn_positions cfg len). in_bounds cfg (fst p) (snd p)"
proof
  fix p assume pin: "p \<in> set (spawn_positions cfg len)"
  define n where "n = grid_size cfg"
  define hx where "hx = (if n div 2 - (len - 1) < 0 \<or> n div 2 \<ge> n then (n - len) div 2 + len - 1 else n div 2)"
  have sp: "spawn_positions cfg len = map (\<lambda>i. (hx - i, n div 2)) (py_range len)"
    by (simp add: spawn_positions_def Let_def hx_def n_def)
  from pin obtain i where i: "0 \<le> i" "i < len" and p: "p = (hx - i, n div 2)"
    unfolding sp by (auto simp: set_py_range)
  have n: "1 \<le> n" "len \<le> n" using assms by (simp_all add: n_def)
  have c: "0 \<le> n div 2" "n div 2 < n" using n by simp_all
  have t: "0 \<le> (n - len) div 2" "(n - len) div 2 \<le> n - len" using n by simp_all
  have "0 \<le> hx - (len - 1) \<and> hx < n"
  proof (cases "n div 2 - (len - 1) < 0 \<or> n div 2 \<ge> n")
    case True
    then have "hx = (n - len) div 2 + len - 1" by (simp only: hx_def if_True)
    then show ?thesis using t by linarith
  next
    case False
    then have "hx = n div 2" by (simp only: hx_def if_False)
    then show ?thesis using False c by linarith
  qed
  then have "0 \<le> hx - i \<and> hx - i < n" using i by linarith
  then show "in_bounds cfg (fst p) (snd p)"
    using c by (simp add: p in_bounds_def n_def)
qed

lemma reset_ok:
  assumes "1 \<le> initial_length cfg" and "initial_length cfg \<le> grid_size cfg"
  shows "\<exists>s. reset cfg rnd = Inr s"
proof -
  let ?n = "nat (grid_size cfg)"
  have "\<forall>p \<in> set (spawn_positions cfg (initial_length cfg)).
          0 \<le> fst p \<and> fst p < int ?n \<and> 0 \<le> snd p \<and> snd p < int ?n"
    using spawn_positions_in_bounds [OF assms] by (auto simp: in_bounds_def Let_def)
  from place_cells_ok [OF blank_game_grid this]
  obtain s1 where "place_cells (spawn_positions cfg (initial_length cfg)) (blank_game (grid_size cfg)) = Inr s1"
    by blast
  then show ?thesis using assms by (simp add: reset_def spawn_snake_eq)
qed

lemma reset_shape:
  assumes "reset cfg rnd = Inr s"
  shows "1 \<le> initial_length cfg"
    and "snake s = spawn_positions cfg (initial_length cfg)"
    and "snake_set s = fset_of_list (snake s)"
    and "direction s = ''right''" and "pending_direction s = ''right''"
    and "score s = 0" and "alive s" and "\<not> running s"
    and "apples s |\<union>| free_tiles s = free_tiles (blank_game (grid_size cfg)) |-| fset_of_list (snake s)"
    and "apples s |\<inter>| free_tiles s = {||}"
proof -
  let ?ps = "spawn_positions cfg (initial_length cfg)"
  let ?b = "blank_game (grid_size cfg)"
  from assms obtain s1 where sp: "spawn_snake cfg (initial_length cfg) ?b = Inr s1"
    and s: "s = replenish_apples cfg rnd s1"
    by (auto simp: reset_def split: sum.splits)
  from sp show len: "1 \<le> initial_length cfg"
    by (auto simp: spawn_snake_eq split: if_splits)
  from sp len have "place_cells ?ps ?b = Inr s1" by (simp add: spawn_snake_eq)
  from place_cells_result [OF this] obtain g where
    s1: "s1 = ?b\<lparr>snake := snake ?b @ ?ps, snake_set := snake_set ?b |\<union>| fset_of_list ?ps,
                  free_tiles := free_tiles ?b |-| fset_of_list ?ps, grid := g\<rparr>"
    by blast
  have b: "snake ?b = []" "snake_set ?b = {||}" "apples ?b = {||}" "direction ?b = ''right''"
    "pending_direction ?b = ''right''" "score ?b = 0" "alive ?b" "\<not> running ?b"
    by (simp_all add: blank_game_def)
  show "snake s = ?ps" by (simp add: s s1 b)
  then show "snake_set s = fset_of_list (snake s)" by (simp add: s s1 b)
  show "direction s = ''right''" "pending_direction s = ''right''" "score s = 0" "alive s" "\<not> running s"
    by (simp_all add: s s1 b)
  have "apples s |\<union>| free_tiles s = apples s1 |\<union>| free_tiles s1"
    unfolding s by (rule replenish_apples_union)
  then show "apples s |\<union>| free_tiles s = free_tiles ?b |-| fset_of_list (snake s)"
    using \<open>snake s = ?ps\<close> by (simp add: s1 b)
  have "apples s = free_tiles s1 |-| free_tiles s"
    using replenish_apples_apples [of cfg rnd s1] by (simp add: s s1 b)
  then show "apples s |\<inter>| free_tiles s = {||}" by auto
qed

lemma reset_count:
  assumes "reset cfg rnd = Inr s"
  shows "int (fcard (apples s)) =
           max 0 (min (apples_cfg cfg)
             (int (fcard (free_tiles (blank_game (grid_size cfg)) |-| fset_of_list (snake s)))))"
proof -
  let ?ps = "spawn_positions cfg (initial_length cfg)"
  let ?b = "blank_game (grid_size cfg)"
  from assms obtain s1 where sp: "spawn_snake cfg (initial_length cfg) ?b = Inr s1"
    and s: "s = replenish_apples cfg rnd s1"
    by (auto simp: reset_def split: sum.splits)
  from sp have "place_cells ?ps ?b = Inr s1" by (auto simp: spawn_snake_eq split: if_splits)
  from place_cells_result [OF this] obtain g where
    s1: "s1 = ?b\<lparr>snake := snake ?b @ ?ps, snake_set := snake_set ?b |\<union>| fset_of_list ?ps,
                  free_tiles := free_tiles ?b |-| fset_of_list ?ps, grid := g\<rparr>"
    by blast
  have a: "apples s1 = {||}" "free_tiles s1 = free_tiles ?b |-| fset_of_list ?ps"
    by (simp_all add: s1 blank_game_def)
  have sn: "snake s = ?ps" using assms by (rule reset_shape)
  show ?thesis
    unfolding s replenish_apples_count a sn [unfolded s] by (simp add: fcard_fempty)
qed

lemma free_4_3: "fcard (free_tiles (blank_game 4) |-| {|(2, 2), (1, 2), (0, 2)|}) = 13"
  by code_simp

lemma spawn_positions_20_3:
  "grid_size cfg = 20 \<Longrightarrow> spawn_positions cfg 3 = [(10, 10), (9, 10), (8, 10)]"
  by (simp add: spawn_positions_def py_range_def upto_rec1)

lemma spawn_positions_3_3:
  "grid_size cfg = 3 \<Longrightarrow> spawn_positions cfg 3 = [(2, 1), (1, 1), (0, 1)]"
  by (simp add: spawn_positions_def py_range_def upto_rec1)

lemma spawn_positions_4_3:
  "grid_size cfg = 4 \<Longrightarrow> spawn_positions cfg 3 = [(2, 2), (1, 2), (0, 2)]"
  by (simp add: spawn_positions_def py_range_def upto_rec1)

section \<open>Properties of move\<close>

lemma opposites_lookup:
  "map_of opposites d =
     (if d = ''up'' then Some ''down'' else if d = ''down'' then Some ''up''
      else if d = ''left'' then Some ''right'' else if d = ''right'' then Some ''left''
      else None)"
  by (simp add: opposites_def)

lemma advance_result:
  assumes "snake s \<noteq> []"
  shows "advance cfg rnd (s\<lparr>direction := pending_direction s\<rparr>) n =
     (if n |\<in>| snake_set s \<and> \<not> (n |\<notin>| apples s \<and> n = last (snake s)) then
        Inr (False, s\<lparr>direction := pending_direction s, alive := False\<rparr>)
      else if n |\<in>| apples s then Inr (True, replenish_apples cfg rnd (grown s n))
      else Inr (True, replenish_apples cfg rnd (slid s n)))"
proof -
  obtain h t where ht: "snake s = h # t" using assms by (cases "snake s") auto
  show ?thesis
    unfolding advance_def grown_def slid_def
    by (simp add: ht Let_def)
qed

lemma move_result:
  "move cfg rnd s =
     (if \<not> alive s then Inr (False, s)
      else case next_head s (pending_direction s) of
        Inl e \<Rightarrow> Inl e
      | Inr (x, y) \<Rightarrow>
          if wrap_walls cfg \<and> grid_size cfg = 0 then Inl ZeroDivisionError
          else if \<not> wrap_walls cfg \<and> \<not> in_bounds cfg x y then
            Inr (False, s\<lparr>direction := pending_direction s, alive := False\<rparr>)
          else if candidate cfg x y |\<in>| snake_set s \<and>
                  \<not> (candidate cfg x y |\<notin>| apples s \<and> candidate cfg x y = last (snake s)) then
            Inr (False, s\<lparr>direction := pending_direction s, alive := False\<rparr>)
          else if candidate cfg x y |\<in>| apples s then
            Inr (True, replenish_apples cfg rnd (grown s (candidate cfg x y)))
          else Inr (True, replenish_apples cfg rnd (slid s (candidate cfg x y))))"
proof (cases "alive s")
  case False
  then show ?thesis by (simp add: move_def)
next
  case True
  show ?thesis
  proof (cases "snake s")
    case Nil
    then show ?thesis using True by (simp add: move_def next_head_def)
  next
    case (Cons h t)
    then have ne: "snake s \<noteq> []" by simp
    obtain hx hy where h: "h = (hx, hy)" by (cases h)
    have nh: "next_head (s\<lparr>direction := pending_direction s\<rparr>) d = next_head s d" for d
      by (simp add: next_head_def)
    have "\<exists>c. next_head s (pending_direction s) = Inr c"
      by (simp add: next_head_def Cons h)
    then obtain x y where xy: "next_head s (pending_direction s) = Inr (x, y)"
      by (metis surj_pair)
    show ?thesis
      using True
      by (simp add: move_def Let_def nh xy advance_result [OF ne] candidate_def)
  qed
qed

lemma move_ok_result:
  assumes "move cfg rnd s = Inr (True, s')" and "next_head s (pending_direction s) = Inr (x, y)"
  shows "alive s"
    and "snake s \<noteq> []"
    and "wrap_walls cfg \<longrightarrow> grid_size cfg \<noteq> 0"
    and "\<not> wrap_walls cfg \<longrightarrow> in_bounds cfg x y"
    and "\<not> (candidate cfg x y |\<in>| snake_set s \<and>
            \<not> (candidate cfg x y |\<notin>| apples s \<and> candidate cfg x y = last (snake s)))"
    and "s' = replenish_apples cfg rnd
           (if candidate cfg x y |\<in>| apples s then grown s (candidate cfg x y)
            else slid s (candidate cfg x y))"
proof -
  show a: "alive s" using assms(1) by (cases "alive s") (simp_all add: move_def)
  show "snake s \<noteq> []" using assms(2) by (auto simp: next_head_def)
  have r: "(if wrap_walls cfg \<and> grid_size cfg = 0 then Inl ZeroDivisionError
          else if \<not> wrap_walls cfg \<and> \<not> in_bounds cfg x y then
            Inr (False, s\<lparr>direction := pending_direction s, alive := False\<rparr>)
          else if candidate cfg x y |\<in>| snake_set s \<and>
                  \<not> (candidate cfg x y |\<notin>| apples s \<and> candidate cfg x y = last (snake s)) then
            Inr (False, s\<lparr>direction := pending_direction s, alive := False\<rparr>)
          else if candidate cfg x y |\<in>| apples s then
            Inr (True, replenish_apples cfg rnd (grown s (candidate cfg x y)))
          else Inr (True, replenish_apples cfg rnd (slid s (candidate cfg x y)))) = Inr (True, s')"
    using assms(1) unfolding move_result by (simp add: a assms(2))
  show "wrap_walls cfg \<longrightarrow> grid_size cfg \<noteq> 0" using r by (auto split: if_splits)
  show "\<not> wrap_walls cfg \<longrightarrow> in_bounds cfg x y" using r by (auto split: if_splits)
  show "\<not> (candidate cfg x y |\<in>| snake_set s \<and>
            \<not> (candidate cfg x y |\<notin>| apples s \<and> candidate cfg x y = last (snake s)))"
    using r by (auto split: if_splits)
  show "s' = replenish_apples cfg rnd
           (if candidate cfg x y |\<in>| apples s then grown s (candidate cfg x y)
            else slid s (candidate cfg x y))"
    using r by (auto split: if_splits)
qed

lemma move_length_score:
  assumes "move cfg rnd s = Inr (ok, s')"
  shows "int (length (snake s')) - score s' = int (length (snake s)) - score s \<and> score s \<le> score s'"
proof (cases "alive s")
  case False
  then show ?thesis using assms by (simp add: move_def)
next
  case True
  from assms True obtain x y where nh: "next_head s (pending_direction s) = Inr (x, y)"
    by (cases "next_head s (pending_direction s)") (auto simp: move_result)
  then have ne: "snake s \<noteq> []" by (auto simp: next_head_def)
  show ?thesis
    using assms True ne unfolding move_result nh
    by (auto simp: grown_def slid_def split: if_splits)
qed

lemma reachable_length_score:
  "reachable cfg s \<Longrightarrow>
     int (length (snake s)) = initial_length cfg + score s \<and> 0 \<le> score s"
proof (induction rule: reachable.induct)
  case (reach_reset rnd s)
  note sh = reset_shape [OF reach_reset]
  have "length (snake s) = nat (initial_length cfg)"
    by (simp add: sh(2) spawn_positions_def Let_def length_py_range)
  then show ?case using sh(1) sh(6) by simp
next
  case (reach_move s rnd ok s')
  then show ?case using move_length_score [OF reach_move.hyps(2)] by linarith
next
  case (reach_queue s d)
  have "snake (queue_direction d s) = snake s" "score (queue_direction d s) = score s"
    by (simp_all add: queue_direction_def split: option.splits)
  then show ?case using reach_queue.IH by simp
qed

lemma replenish_apples_reaches:
  "min (apples_cfg cfg) (int (fcard (free_tiles (replenish_apples cfg rnd s))))
     \<le> int (fcard (apples (replenish_apples cfg rnd s)))"
proof -
  have "fcard (free_tiles (replenish_apples cfg rnd s)) \<le> fcard (free_tiles s)"
    by (rule fcard_mono) (rule replenish_apples_free)
  then show ?thesis unfolding replenish_apples_count by linarith
qed

lemma reset_grid_positive:
  assumes "reset cfg rnd = Inr s"
  shows "0 < grid_size cfg"
proof -
  let ?b = "blank_game (grid_size cfg)"
  note sh = reset_shape [OF assms]
  from assms obtain s1 where "spawn_snake cfg (initial_length cfg) ?b = Inr s1"
    by (auto simp: reset_def split: sum.splits)
  then have pc: "place_cells (spawn_positions cfg (initial_length cfg)) ?b = Inr s1"
    using sh(1) by (simp add: spawn_snake_eq)
  obtain p ps where pp: "spawn_positions cfg (initial_length cfg) = p # ps"
    using sh(1) by (simp add: spawn_positions_def Let_def py_range_nonempty)
  obtain x y where p: "p = (x, y)" by (cases p)
  from pc obtain g where "grid_set (grid ?b) y x 1 = Inr g"
    unfolding pp p by (auto split: sum.splits)
  then obtain r where "py_index (length (grid ?b)) y = Inr r"
    by (auto simp: grid_set_def split: sum.splits)
  then have "0 < length (grid ?b)"
    by (auto simp: py_index_def Let_def split: if_splits)
  then show ?thesis by (simp add: blank_game_grid(1))
qed

lemma covered_same_sets:
  assumes "covered cfg s" and "snake_set s' = snake_set s" and "apples s' = apples s"
    and "free_tiles s' = free_tiles s"
  shows "covered cfg s'"
  using assms by (simp add: covered_def)

lemma reset_covered:
  assumes "reset cfg rnd = Inr s"
  shows "covered cfg s"
proof -
  let ?F1 = "free_tiles (blank_game (grid_size cfg)) |-| fset_of_list (snake s)"
  note sh = reset_shape [OF assms]
  have 1: "0 < grid_size cfg" using assms by (rule reset_grid_positive)
  have 2: "(x, y) |\<in>| snake_set s |\<union>| apples s |\<union>| free_tiles s" if "in_bounds cfg x y" for x y
  proof -
    have "(x, y) |\<in>| free_tiles (blank_game (grid_size cfg))"
      using that by (simp add: all_cells_iff in_bounds_def Let_def)
    then have "(x, y) |\<in>| fset_of_list (snake s) |\<union>| ?F1" by auto
    then show ?thesis unfolding sh(9) [symmetric] sh(3) by auto
  qed
  have "free_tiles s |\<subseteq>| ?F1" unfolding sh(9) [symmetric] by auto
  then have "fcard (free_tiles s) \<le> fcard ?F1" by (rule fcard_mono)
  then have 3: "min (apples_cfg cfg) (int (fcard (free_tiles s))) \<le> int (fcard (apples s))"
    unfolding reset_count [OF assms] by linarith
  from 1 2 3 show ?thesis by (simp add: covered_def)
qed

lemma move_covered:
  assumes "move cfg rnd s = Inr (ok, s')" and "covered cfg s"
  shows "covered cfg s'"
proof (cases ok)
  case False
  have "s' = s \<or> s' = s\<lparr>direction := pending_direction s, alive := False\<rparr>"
    using assms(1) False unfolding move_result
    by (auto split: if_splits sum.splits prod.splits)
  then show ?thesis
  proof
    assume "s' = s"
    then show ?thesis using assms(2) by simp
  next
    assume "s' = s\<lparr>direction := pending_direction s, alive := False\<rparr>"
    then show ?thesis using covered_same_sets [OF assms(2), of s'] by simp
  qed
next
  case True
  from assms(1) True have al: "alive s" by (cases "alive s") (simp_all add: move_def)
  from assms(1) al obtain x y where nh: "next_head s (pending_direction s) = Inr (x, y)"
    by (cases "next_head s (pending_direction s)") (auto simp: move_result)
  let ?n = "candidate cfg x y"
  let ?s3 = "if ?n |\<in>| apples s then grown s ?n else slid s ?n"
  from assms(1) True have m: "move cfg rnd s = Inr (True, s')" by simp
  note r = move_ok_result [OF m nh]
  have s': "s' = replenish_apples cfg rnd ?s3" by (rule r(6))
  have u: "snake_set s |\<union>| apples s |\<union>| free_tiles s
             |\<subseteq>| snake_set ?s3 |\<union>| apples ?s3 |\<union>| free_tiles ?s3"
    by (auto simp: grown_def slid_def)
  have "snake_set s' |\<union>| apples s' |\<union>| free_tiles s' = snake_set ?s3 |\<union>| (apples ?s3 |\<union>| free_tiles ?s3)"
    unfolding s' using replenish_apples_union [of cfg rnd ?s3]
    by (simp add: funion_assoc del: replenish_apples_union)
  then have "snake_set s |\<union>| apples s |\<union>| free_tiles s |\<subseteq>| snake_set s' |\<union>| apples s' |\<union>| free_tiles s'"
    using u by (simp add: funion_assoc)
  moreover have "min (apples_cfg cfg) (int (fcard (free_tiles s'))) \<le> int (fcard (apples s'))"
    unfolding s' by (rule replenish_apples_reaches)
  ultimately show ?thesis using assms(2) unfolding covered_def by blast
qed

lemma reachable_covered: "reachable cfg s \<Longrightarrow> covered cfg s"
proof (induction rule: reachable.induct)
  case (reach_reset rnd s)
  then show ?case by (rule reset_covered)
next
  case (reach_move s rnd ok s')
  then show ?case using move_covered by blast
next
  case (reach_queue s d)
  have "queue_direction d s = s \<or> queue_direction d s = s\<lparr>pending_direction := d\<rparr>"
    by (simp add: queue_direction_def split: option.splits)
  then show ?case
  proof
    assume "queue_direction d s = s"
    then show ?thesis using reach_queue.IH by simp
  next
    assume "queue_direction d s = s\<lparr>pending_direction := d\<rparr>"
    then show ?thesis using covered_same_sets [OF reach_queue.IH, of "queue_direction d s"] by simp
  qed
qed

lemma collision_rule_on_snake_set:
  assumes "alive s" and "next_head s (pending_direction s) = Inr (x, y)"
    and "wrap_walls cfg \<longrightarrow> grid_size cfg \<noteq> 0"
    and "\<not> wrap_walls cfg \<longrightarrow> in_bounds cfg x y"
  shows "(\<exists>s'. move cfg rnd s = Inr (False, s')) \<longleftrightarrow>
           candidate cfg x y |\<in>| snake_set s \<and>
           \<not> (candidate cfg x y |\<notin>| apples s \<and> candidate cfg x y = last (snake s))"
  using assms by (auto simp: move_result)

section \<open>Runs of the examples\<close>

lemma play_reachable:
  "reachable cfg s \<Longrightarrow> play cfg cs s = Inr s' \<Longrightarrow> reachable cfg s'"
proof (induction cs arbitrary: s)
  case Nil
  then show ?case by simp
next
  case (Cons c cs)
  show ?case
  proof (cases c)
    case (Move rnd)
    from Cons.prems(2) obtain ok s1 where m: "move cfg rnd s = Inr (ok, s1)"
      and p: "play cfg cs s1 = Inr s'"
      by (auto simp: Move split: sum.splits)
    from Cons.prems(1) m have "reachable cfg s1" by (rule reach_move)
    then show ?thesis using p by (rule Cons.IH)
  next
    case (Queue d)
    from Cons.prems(1) have "reachable cfg (queue_direction d s)" by (rule reach_queue)
    then show ?thesis using Cons.prems(2) by (simp add: Queue Cons.IH)
  qed
qed

lemma play_length_mono:
  "play cfg cs s = Inr s' \<Longrightarrow>
     length (snake s) \<le> length (snake s') \<and> score s \<le> score s'"
proof (induction cs arbitrary: s)
  case Nil
  then show ?case by simp
next
  case (Cons c cs)
  show ?case
  proof (cases c)
    case (Move rnd)
    from Cons.prems obtain ok s1 where m: "move cfg rnd s = Inr (ok, s1)"
      and p: "play cfg cs s1 = Inr s'"
      by (auto simp: Move split: sum.splits)
    have "length (snake s) \<le> length (snake s1) \<and> score s \<le> score s1"
      using move_length_score [OF m] by linarith
    then show ?thesis using Cons.IH [OF p] by linarith
  next
    case (Queue d)
    have q: "snake (queue_direction d s) = snake s" "score (queue_direction d s) = score s"
      by (simp_all add: queue_direction_def split: option.splits)
    from Cons.prems have "play cfg cs (queue_direction d s) = Inr s'" by (simp add: Queue)
    from Cons.IH [OF this] show ?thesis by (simp add: q)
  qed
qed

lemma game_after_reachable:
  assumes "game_after cfg rnd cs = Inr s"
  shows "reachable cfg s"
proof -
  from assms obtain s0 where r: "reset cfg rnd = Inr s0" and p: "play cfg cs s0 = Inr s"
    by (auto simp: game_after_def split: sum.splits)
  from r have "reachable cfg s0" by (rule reach_reset)
  then show ?thesis using p by (rule play_reachable)
qed

lemma scenario_start_reset: "reset scenario_config (\<lambda>_. 11) = Inr scenario_start"
  by code_simp

lemma full_grid_run: "game_after full_config draw_first fill_calls = Inr full_grid"
  by code_simp

lemma full_grid_move: "move full_config draw_first full_grid = Inr (True, after_full_grid)"
  by code_simp

lemma cross_run:
  "(case game_after six_config draw_first cross_calls of
      Inl e \<Rightarrow> False
    | Inr s \<Rightarrow>
        snake s = [(5, 4), (5, 5), (4, 5), (4, 4), (4, 3), (5, 3)] \<and>
        pending_direction s = ''left'' \<and>
        (case move six_config draw_first s of
           Inl e \<Rightarrow> False
         | Inr (ok, s') \<Rightarrow> ok \<and> alive s' \<and> snake s' = [(4, 4), (5, 4), (5, 5), (4, 5), (4, 4), (4, 3)]))"
  by code_simp

lemma apple_run:
  "(case game_after four_config (\<lambda>_. 26) apple_calls of
      Inl e \<Rightarrow> False
    | Inr s \<Rightarrow> (3, 4) |\<in>| apples s \<and> (3, 4) |\<in>| free_tiles s \<and> alive s)"
  by code_simp

lemma scenario_start_reachable: "reachable scenario_config scenario_start"
  using scenario_start_reset by (rule reach_reset)

lemma scenario_eat:
  "(case move scenario_config draw_first scenario_start of
      Inl e \<Rightarrow> False
    | Inr (ok, s') \<Rightarrow> ok \<and> snake s' = [(3, 2), (2, 2), (1, 2), (0, 2)] \<and> score s' = 1)"
  by code_simp

lemma scenario_up:
  "(case move scenario_config draw_first (queue_direction ''up'' scenario_start) of
      Inl e \<Rightarrow> False
    | Inr (ok, s') \<Rightarrow> ok \<and> snake s' = [(2, 1), (2, 2), (1, 2)] \<and> (0, 2) |\<in>| free_tiles s')"
  by code_simp

text \<open>
  The same failure as on the 4 by 4 grid of \<open>full_config\<close>, on a grid of the size the
  settings form accepts: the snake eats its way along \<open>big_path\<close>, fills the grid, and
  steps onto its tail; whatever the random draws, the tail cell is then an apple and not a
  free tile.
\<close>

lemma big_play:
  assumes "snake s = [(4, 4), (3, 4)]" and "snake_set s = {|(4, 4), (3, 4)|}"
    and "apples s = fset_of_list big_path" and "free_tiles s = {||}"
    and "alive s" and "direction s = ''right''" and "pending_direction s = ''right''"
    and "score s = 0"
  shows "play big_config (big_calls rnd) s =
           Inr (s\<lparr>snake := rev big_path @ [(4, 4), (3, 4)],
                  snake_set := fset_of_list (rev big_path @ [(4, 4), (3, 4)]),
                  apples := {||}, direction := ''right'', pending_direction := ''right'',
                  score := 62\<rparr>)"
  using assms
  by (simp add: big_calls_def big_path_def big_config_def move_result queue_direction_def
        opposites_lookup next_head_def candidate_def in_bounds_def grown_def
        replenish_apples_no_free)

lemma big_free: "free_tiles (blank_game 8) |-| {|(4, 4), (3, 4)|} = fset_of_list big_path"
  by code_simp

lemma big_count: "fcard (fset_of_list big_path) = 62"
  by code_simp

lemma slide_on_full_grid:
  assumes "alive s" and "next_head s (pending_direction s) = Inr (x, y)"
    and "wrap_walls cfg \<longrightarrow> grid_size cfg \<noteq> 0"
    and "\<not> wrap_walls cfg \<longrightarrow> in_bounds cfg x y"
    and "candidate cfg x y = last (snake s)"
    and "apples s = {||}" and "free_tiles s = {||}" and "1 \<le> apples_cfg cfg"
  shows "\<exists>s'. move cfg rnd s = Inr (True, s') \<and>
              snake s' = last (snake s) # butlast (snake s) \<and>
              last (snake s) |\<notin>| free_tiles s' \<and> apples s' = {|last (snake s)|}"
proof -
  define t where "t = last (snake s)"
  define s1 where "s1 = slid s t"
  define s' where "s' = replenish_apples cfg rnd s1"
  have m: "move cfg rnd s = Inr (True, s')"
    using assms unfolding s'_def s1_def t_def by (auto simp: move_result)
  have f: "free_tiles s1 = {|t|}" "apples s1 = {||}"
    using assms(6,7) by (simp_all add: s1_def slid_def t_def)
  have "int (fcard (apples s')) = max 0 (min (apples_cfg cfg) 1)"
    unfolding s'_def replenish_apples_count f by (simp add: fcard_fempty fcard_finsert_if)
  then have c: "fcard (apples s') = 1" using assms(8) by simp
  have a: "apples s' = {|t|} |-| free_tiles s'"
    using replenish_apples_apples [of cfg rnd s1] unfolding s'_def [symmetric] f by simp
  have nf: "t |\<notin>| free_tiles s'"
  proof
    assume "t |\<in>| free_tiles s'"
    then have "{|t|} |-| free_tiles s' = {||}" by auto
    then have "apples s' = {||}" using a by simp
    then show False using c by (simp add: fcard_fempty)
  qed
  then have "{|t|} |-| free_tiles s' = {|t|}" by auto
  then have a': "apples s' = {|t|}" using a by simp
  have sn: "snake s' = t # butlast (snake s)"
    by (simp add: s'_def s1_def slid_def)
  from m sn nf a' show ?thesis unfolding t_def by blast
qed

lemma tail_freed_fails_8_by_8:
  "\<exists>s s'. reachable big_config s \<and> length (snake s) = 64 \<and> score s = 62 \<and>
     next_head s (pending_direction s) = Inr (3, 4) \<and> candidate big_config 3 4 = (3, 4) \<and>
     (3, 4) |\<notin>| apples s \<and> last (snake s) = (3, 4) \<and>
     move big_config rnd s = Inr (True, s') \<and> length (snake s') = length (snake s) \<and>
     (3, 4) |\<notin>| free_tiles s' \<and> (3, 4) |\<in>| apples s' \<and> hd (snake s') = (3, 4)"
proof -
  have g: "grid_size big_config = 8" "initial_length big_config = 2" "apples_cfg big_config = 62"
    "\<not> wrap_walls big_config"
    by (simp_all add: big_config_def)
  obtain s0 where s0: "reset big_config rnd = Inr s0"
    using reset_ok [of big_config rnd] g by auto
  note sh = reset_shape [OF s0]
  have sn: "snake s0 = [(4, 4), (3, 4)]"
    unfolding sh(2) by (simp add: spawn_positions_def g py_range_def upto_rec1)
  have ss: "snake_set s0 = {|(4, 4), (3, 4)|}" unfolding sh(3) sn by simp
  have u: "apples s0 |\<union>| free_tiles s0 = fset_of_list big_path"
    unfolding sh(9) g sn using big_free by simp
  have "int (fcard (apples s0)) = 62"
    unfolding reset_count [OF s0] g sn using big_free big_count by simp
  then have le: "fcard (fset_of_list big_path) \<le> fcard (apples s0)" by (simp add: big_count)
  have "apples s0 |\<subseteq>| fset_of_list big_path" unfolding u [symmetric] by auto
  then have a: "apples s0 = fset_of_list big_path" using le by (rule fcard_seteq)
  have f: "free_tiles s0 = {||}" using u sh(10) unfolding a by auto
  define s where "s = s0\<lparr>snake := rev big_path @ [(4, 4), (3, 4)],
                  snake_set := fset_of_list (rev big_path @ [(4, 4), (3, 4)]),
                  apples := {||}, direction := ''right'', pending_direction := ''right'',
                  score := 62\<rparr>"
  have p: "play big_config (big_calls rnd) s0 = Inr s"
    unfolding s_def using sn ss a f sh(7) sh(4) sh(5) sh(6) by (rule big_play)
  have "reachable big_config s0" using s0 by (rule reach_reset)
  then have r: "reachable big_config s" using p by (rule play_reachable)
  have l: "last (snake s) = (3, 4)" "length (snake s) = 64" "score s = 62"
    by (simp_all add: s_def big_path_def)
  have nh: "next_head s (pending_direction s) = Inr (3, 4)"
    by (simp add: s_def next_head_def big_path_def)
  have c: "candidate big_config 3 4 = (3, 4)" by (simp add: candidate_def g)
  have "\<exists>s'. move big_config rnd s = Inr (True, s') \<and>
              snake s' = last (snake s) # butlast (snake s) \<and>
              last (snake s) |\<notin>| free_tiles s' \<and> apples s' = {|last (snake s)|}"
  proof (rule slide_on_full_grid [OF _ nh])
    show "alive s" using sh(7) by (simp add: s_def)
    show "wrap_walls big_config \<longrightarrow> grid_size big_config \<noteq> 0" by (simp add: g)
    show "\<not> wrap_walls big_config \<longrightarrow> in_bounds big_config 3 4" by (simp add: in_bounds_def g)
    show "candidate big_config 3 4 = last (snake s)" by (simp only: c l)
    show "apples s = {||}" by (simp add: s_def)
    show "free_tiles s = {||}" using f by (simp add: s_def)
    show "1 \<le> apples_cfg big_config" by (simp add: g)
  qed
  then obtain s' where s': "move big_config rnd s = Inr (True, s')"
    "snake s' = last (snake s) # butlast (snake s)"
    "last (snake s) |\<notin>| free_tiles s'" "apples s' = {|last (snake s)|}"
    by blast
  have 1: "length (snake s') = length (snake s)" unfolding s'(2) by (simp add: l(2))
  have 2: "hd (snake s') = (3, 4)" unfolding s'(2) l by simp
  have 3: "(3, 4) |\<notin>| free_tiles s'" "(3, 4) |\<in>| apples s'"
    using s'(3,4) unfolding l by simp_all
  have 4: "(3, 4) |\<notin>| apples s" by (simp add: s_def)
  from r l nh c s'(1) 1 2 3 4 show ?thesis by blast
qed

section \<open>The claims\<close>

text \<open>
  C7. After \<open>reset\<close> the snake is a horizontal line, head rightmost, and \<open>direction\<close>
  and \<open>pending_direction\<close> are both \<open>right\<close>. With \<open>grid_size = 20\<close> and
  \<open>initial_length = 3\<close> the cells are (10,10), (9,10), (8,10), head first. With
  \<open>grid_size = 3\<close> and \<open>initial_length = 3\<close> the centred line (1,1), (0,1), (-1,1)
  leaves the grid and the snake is placed at (2,1), (1,1), (0,1). For every configuration
  with \<open>initial_length \<le> grid_size\<close> all spawned cells lie inside the grid; \<open>reset\<close>
  raises (ValueError, from \<open>min\<close> of no positions) only when \<open>initial_length \<le> 0\<close>.
\<close>

theorem reset_spawns_line:
  "(initial_length cfg \<le> grid_size cfg \<longrightarrow>
      (case reset cfg rnd of
         Inl e \<Rightarrow> e = ValueError \<and> initial_length cfg \<le> 0
       | Inr s \<Rightarrow>
           direction s = ''right'' \<and> pending_direction s = ''right'' \<and>
           (\<exists>head_x. snake s =
              map (\<lambda>i. (head_x - i, grid_size cfg div 2)) (py_range (initial_length cfg))) \<and>
           (\<forall>p \<in> set (snake s). in_bounds cfg (fst p) (snd p)))) \<and>
   (1 \<le> initial_length cfg \<and> initial_length cfg \<le> grid_size cfg \<longrightarrow> (\<exists>s. reset cfg rnd = Inr s)) \<and>
   (grid_size cfg = 20 \<and> initial_length cfg = 3 \<longrightarrow>
      (\<exists>s. reset cfg rnd = Inr s \<and> snake s = [(10, 10), (9, 10), (8, 10)] \<and>
           direction s = ''right'' \<and> pending_direction s = ''right'')) \<and>
   (grid_size cfg = 3 \<and> initial_length cfg = 3 \<longrightarrow>
      map (\<lambda>i. (grid_size cfg div 2 - i, grid_size cfg div 2)) (py_range (initial_length cfg)) =
        [(1, 1), (0, 1), (- 1, 1)] \<and>
      (\<exists>s. reset cfg rnd = Inr s \<and> snake s = [(2, 1), (1, 1), (0, 1)] \<and>
           direction s = ''right'' \<and> pending_direction s = ''right''))"
proof (intro conjI impI)
  assume le: "initial_length cfg \<le> grid_size cfg"
  show "case reset cfg rnd of
         Inl e \<Rightarrow> e = ValueError \<and> initial_length cfg \<le> 0
       | Inr s \<Rightarrow>
           direction s = ''right'' \<and> pending_direction s = ''right'' \<and>
           (\<exists>head_x. snake s =
              map (\<lambda>i. (head_x - i, grid_size cfg div 2)) (py_range (initial_length cfg))) \<and>
           (\<forall>p \<in> set (snake s). in_bounds cfg (fst p) (snd p))"
  proof (cases "reset cfg rnd")
    case (Inl e)
    have "\<not> 1 \<le> initial_length cfg" using reset_ok [of cfg rnd] le Inl by auto
    then have "initial_length cfg \<le> 0" by simp
    moreover from this Inl have "e = ValueError"
      by (simp add: reset_def spawn_snake_eq)
    ultimately show ?thesis by (simp add: Inl)
  next
    case (Inr s)
    note sh = reset_shape [OF Inr]
    have "\<exists>head_x. snake s = map (\<lambda>i. (head_x - i, grid_size cfg div 2)) (py_range (initial_length cfg))"
      unfolding sh(2) spawn_positions_def Let_def by blast
    moreover have "\<forall>p \<in> set (snake s). in_bounds cfg (fst p) (snd p)"
      unfolding sh(2) using sh(1) le by (rule spawn_positions_in_bounds)
    ultimately show ?thesis by (simp add: Inr sh)
  qed
next
  assume "1 \<le> initial_length cfg \<and> initial_length cfg \<le> grid_size cfg"
  then show "\<exists>s. reset cfg rnd = Inr s" by (simp add: reset_ok)
next
  assume a: "grid_size cfg = 20 \<and> initial_length cfg = 3"
  then obtain s where s: "reset cfg rnd = Inr s" using reset_ok [of cfg rnd] by auto
  note sh = reset_shape [OF s]
  show "\<exists>s. reset cfg rnd = Inr s \<and> snake s = [(10, 10), (9, 10), (8, 10)] \<and>
           direction s = ''right'' \<and> pending_direction s = ''right''"
    using s sh a by (simp add: spawn_positions_20_3)
next
  assume a: "grid_size cfg = 3 \<and> initial_length cfg = 3"
  then show "map (\<lambda>i. (grid_size cfg div 2 - i, grid_size cfg div 2)) (py_range (initial_length cfg)) =
        [(1, 1), (0, 1), (- 1, 1)]"
    by (simp add: py_range_def upto_rec1)
next
  assume a: "grid_size cfg = 3 \<and> initial_length cfg = 3"
  then obtain s where s: "reset cfg rnd = Inr s" using reset_ok [of cfg rnd] by auto
  note sh = reset_shape [OF s]
  show "\<exists>s. reset cfg rnd = Inr s \<and> snake s = [(2, 1), (1, 1), (0, 1)] \<and>
           direction s = ''right'' \<and> pending_direction s = ''right''"
    using s sh a by (simp add: spawn_positions_3_3)
qed

theorem reset_spawns_line_witness:
  "\<exists>s. reset default_config (\<lambda>_. 0) = Inr s \<and> snake s = [(10, 10), (9, 10), (8, 10)] \<and>
       direction s = ''right'' \<and> pending_direction s = ''right'' \<and>
       list_all (\<lambda>p. in_bounds default_config (fst p) (snd p)) (snake s)"
proof -
  have c: "grid_size default_config = 20" "initial_length default_config = 3"
    by (simp_all add: default_config_def)
  from reset_spawns_line [of default_config "\<lambda>_. 0"] c
  obtain s where s: "reset default_config (\<lambda>_. 0) = Inr s" "snake s = [(10, 10), (9, 10), (8, 10)]"
    "direction s = ''right''" "pending_direction s = ''right''"
    by auto
  moreover have "list_all (\<lambda>p. in_bounds default_config (fst p) (snd p)) (snake s)"
    using reset_spawns_line [of default_config "\<lambda>_. 0"] c s(1) by (simp add: list_all_iff)
  ultimately show ?thesis by blast
qed

text \<open>
  C8. \<open>replenish_apples\<close> brings the number of apples up to
  \<open>min (configured count) (number of free tiles)\<close> (it never lowers it), every new apple
  is a tile that was free and is free no longer, nothing else changes, and it returns
  (the loop is total) also when the free tiles run out, then with fewer apples than
  configured. With one free tile and three apples configured at most one apple is placed.
  After \<open>reset\<close> with five apples on a 4 by 4 grid and a snake of three there are exactly
  five apples, none on the snake, whatever the random draws.
\<close>

theorem replenish_apples_target:
  "int (fcard (apples (replenish_apples cfg rnd s))) =
     max (int (fcard (apples s))) (min (apples_cfg cfg) (int (fcard (free_tiles s)))) \<and>
   free_tiles (replenish_apples cfg rnd s) |\<subseteq>| free_tiles s \<and>
   apples (replenish_apples cfg rnd s) =
     apples s |\<union>| (free_tiles s |-| free_tiles (replenish_apples cfg rnd s)) \<and>
   (replenish_apples cfg rnd s)\<lparr>apples := a, free_tiles := f\<rparr> = s\<lparr>apples := a, free_tiles := f\<rparr> \<and>
   (free_tiles s = {||} \<longrightarrow> replenish_apples cfg rnd s = s) \<and>
   (fcard (free_tiles s) = 1 \<and> apples_cfg cfg = 3 \<longrightarrow>
      fcard (apples (replenish_apples cfg rnd s) |-| apples s) \<le> 1 \<and>
      int (fcard (apples (replenish_apples cfg rnd s))) = max (int (fcard (apples s))) 1) \<and>
   (grid_size cfg = 4 \<and> initial_length cfg = 3 \<and> apples_cfg cfg = 5 \<longrightarrow>
      (\<exists>g. reset cfg rnd = Inr g \<and> fcard (apples g) = 5 \<and>
           apples g |\<inter>| snake_set g = {||} \<and> (\<forall>p \<in> set (snake g). p |\<notin>| apples g)))"
proof (intro conjI impI)
  show "int (fcard (apples (replenish_apples cfg rnd s))) =
     max (int (fcard (apples s))) (min (apples_cfg cfg) (int (fcard (free_tiles s))))"
    by (rule replenish_apples_count)
  show "free_tiles (replenish_apples cfg rnd s) |\<subseteq>| free_tiles s"
    by (rule replenish_apples_free)
  show "apples (replenish_apples cfg rnd s) =
     apples s |\<union>| (free_tiles s |-| free_tiles (replenish_apples cfg rnd s))"
    by (rule replenish_apples_apples)
  show "(replenish_apples cfg rnd s)\<lparr>apples := a, free_tiles := f\<rparr> = s\<lparr>apples := a, free_tiles := f\<rparr>"
    by (simp add: replenish_apples_def replenish_loop_frame)
next
  assume "free_tiles s = {||}"
  then show "replenish_apples cfg rnd s = s" by (rule replenish_apples_no_free)
next
  assume a: "fcard (free_tiles s) = 1 \<and> apples_cfg cfg = 3"
  have "apples (replenish_apples cfg rnd s) |-| apples s |\<subseteq>| free_tiles s"
    using replenish_apples_apples [of cfg rnd s] by auto
  then have "fcard (apples (replenish_apples cfg rnd s) |-| apples s) \<le> fcard (free_tiles s)"
    by (rule fcard_mono)
  then show "fcard (apples (replenish_apples cfg rnd s) |-| apples s) \<le> 1" using a by simp
next
  assume a: "fcard (free_tiles s) = 1 \<and> apples_cfg cfg = 3"
  then show "int (fcard (apples (replenish_apples cfg rnd s))) = max (int (fcard (apples s))) 1"
    by (simp add: replenish_apples_count)
next
  assume a: "grid_size cfg = 4 \<and> initial_length cfg = 3 \<and> apples_cfg cfg = 5"
  then obtain g where g: "reset cfg rnd = Inr g" using reset_ok [of cfg rnd] by auto
  note sh = reset_shape [OF g]
  have sn: "snake g = [(2, 2), (1, 2), (0, 2)]" using sh(2) a by (simp add: spawn_positions_4_3)
  have "int (fcard (apples g)) = 5"
    using reset_count [OF g] a by (simp add: sn free_4_3)
  then have 1: "fcard (apples g) = 5" by simp
  have sub: "apples g |\<subseteq>| free_tiles (blank_game (grid_size cfg)) |-| fset_of_list (snake g)"
    using sh(9) by auto
  have 2: "apples g |\<inter>| snake_set g = {||}" using sub sh(3) by auto
  have 3: "\<forall>p \<in> set (snake g). p |\<notin>| apples g" using sub by (auto simp: fset_of_list_elem)
  from g 1 2 3 show "\<exists>g. reset cfg rnd = Inr g \<and> fcard (apples g) = 5 \<and>
           apples g |\<inter>| snake_set g = {||} \<and> (\<forall>p \<in> set (snake g). p |\<notin>| apples g)"
    by blast
qed

theorem replenish_apples_target_witness:
  "\<exists>g. reset scenario_config (\<lambda>_. 0) = Inr g \<and> fcard (apples g) = 5 \<and>
       apples g |\<inter>| snake_set g = {||} \<and> list_all (\<lambda>p. p |\<notin>| apples g) (snake g)"
proof -
  have c: "grid_size scenario_config = 4 \<and> initial_length scenario_config = 3 \<and>
           apples_cfg scenario_config = 5"
    by (simp add: scenario_config_def)
  from replenish_apples_target [of scenario_config "\<lambda>_. 0"] c
  show ?thesis by (simp add: list_all_iff)
qed

text \<open>
  C6. \<open>queue_direction d\<close> changes nothing when \<open>d\<close> is not one of the four
  directions, and nothing when \<open>d\<close> is the opposite of the current direction and the
  snake is longer than one cell; otherwise it sets \<open>pending_direction\<close> to \<open>d\<close>, so
  the opposite is accepted when the snake has one cell. It never changes \<open>direction\<close> or
  any field other than \<open>pending_direction\<close>.
\<close>

theorem queue_direction_rule:
  "(d \<notin> {''up'', ''down'', ''left'', ''right''} \<longrightarrow> queue_direction d s = s) \<and>
   ((d, direction s) \<in> {(''up'', ''down''), (''down'', ''up''), (''left'', ''right''), (''right'', ''left'')}
      \<and> length (snake s) > 1 \<longrightarrow> queue_direction d s = s) \<and>
   (d \<in> {''up'', ''down'', ''left'', ''right''} \<and>
    \<not> ((d, direction s) \<in> {(''up'', ''down''), (''down'', ''up''), (''left'', ''right''), (''right'', ''left'')}
        \<and> length (snake s) > 1)
      \<longrightarrow> queue_direction d s = s\<lparr>pending_direction := d\<rparr>) \<and>
   ((d, direction s) \<in> {(''up'', ''down''), (''down'', ''up''), (''left'', ''right''), (''right'', ''left'')}
      \<and> length (snake s) = 1 \<longrightarrow> queue_direction d s = s\<lparr>pending_direction := d\<rparr>) \<and>
   direction (queue_direction d s) = direction s \<and>
   (queue_direction d s)\<lparr>pending_direction := p\<rparr> = s\<lparr>pending_direction := p\<rparr>"
proof -
  consider "d = ''up''" | "d = ''down''" | "d = ''left''" | "d = ''right''"
    | "d \<notin> {''up'', ''down'', ''left'', ''right''}"
    by blast
  then show ?thesis
  proof cases
    case 1
    then show ?thesis by (simp add: queue_direction_def opposites_lookup)
  next
    case 2
    then show ?thesis by (simp add: queue_direction_def opposites_lookup)
  next
    case 3
    then show ?thesis by (simp add: queue_direction_def opposites_lookup)
  next
    case 4
    then show ?thesis by (simp add: queue_direction_def opposites_lookup)
  next
    case 5
    then show ?thesis by (simp add: queue_direction_def opposites_lookup)
  qed
qed

theorem queue_direction_rule_witness:
  "queue_direction ''left'' scenario_start = scenario_start \<and>
   queue_direction ''up'' scenario_start = scenario_start\<lparr>pending_direction := ''up''\<rparr> \<and>
   queue_direction ''north'' scenario_start = scenario_start \<and>
   (\<exists>s. reset (scenario_config\<lparr>initial_length := 1\<rparr>) draw_first = Inr s \<and>
        length (snake s) = 1 \<and> direction s = ''right'' \<and>
        queue_direction ''left'' s = s\<lparr>pending_direction := ''left''\<rparr>)"
proof -
  let ?c = "scenario_config\<lparr>initial_length := 1\<rparr>"
  have "1 \<le> initial_length ?c" "initial_length ?c \<le> grid_size ?c"
    by (simp_all add: scenario_config_def)
  then obtain s where s: "reset ?c draw_first = Inr s" using reset_ok by blast
  note sh = reset_shape [OF s]
  have l: "length (snake s) = 1"
    by (simp add: sh(2) spawn_positions_def Let_def length_py_range scenario_config_def)
  have "queue_direction ''left'' s = s\<lparr>pending_direction := ''left''\<rparr>"
    using queue_direction_rule [of "''left''" s] l sh(4) by simp
  then have 4: "\<exists>s. reset ?c draw_first = Inr s \<and>
        length (snake s) = 1 \<and> direction s = ''right'' \<and>
        queue_direction ''left'' s = s\<lparr>pending_direction := ''left''\<rparr>"
    using s l sh(4) by blast
  have 1: "queue_direction ''left'' scenario_start = scenario_start"
    using queue_direction_rule [of "''left''" scenario_start] by (simp add: scenario_start_def)
  have 2: "queue_direction ''up'' scenario_start = scenario_start\<lparr>pending_direction := ''up''\<rparr>"
    using queue_direction_rule [of "''up''" scenario_start] by (simp add: scenario_start_def)
  have 3: "queue_direction ''north'' scenario_start = scenario_start"
    using queue_direction_rule [of "''north''" scenario_start] by simp
  from 1 2 3 4 show ?thesis by blast
qed

text \<open>
  C3. When the cell next to the head is outside the grid: without \<open>wrap_walls\<close>,
  \<open>move\<close> sets \<open>alive\<close> to false and returns false; with \<open>wrap_walls\<close> (and a
  grid of positive size) each coordinate is taken modulo \<open>grid_size\<close>, which is a cell
  of the grid (the opposite edge), and \<open>move\<close> goes on with the collision test and the
  commit for that cell: it returns false only on a collision with \<open>snake_set\<close>, never
  for the wall.
\<close>

theorem move_wall_rule:
  assumes "alive s" and "next_head s (pending_direction s) = Inr (x, y)"
    and "\<not> in_bounds cfg x y"
  shows "(\<not> wrap_walls cfg \<longrightarrow>
            move cfg rnd s = Inr (False, s\<lparr>direction := pending_direction s, alive := False\<rparr>)) \<and>
         (wrap_walls cfg \<and> 0 < grid_size cfg \<longrightarrow>
            in_bounds cfg (x mod grid_size cfg) (y mod grid_size cfg) \<and>
            (x = - 1 \<longrightarrow> x mod grid_size cfg = grid_size cfg - 1) \<and>
            (x = grid_size cfg \<longrightarrow> x mod grid_size cfg = 0) \<and>
            (y = - 1 \<longrightarrow> y mod grid_size cfg = grid_size cfg - 1) \<and>
            (y = grid_size cfg \<longrightarrow> y mod grid_size cfg = 0) \<and>
            move cfg rnd s =
              advance cfg rnd (s\<lparr>direction := pending_direction s\<rparr>)
                (x mod grid_size cfg, y mod grid_size cfg) \<and>
            (\<exists>ok s'. move cfg rnd s = Inr (ok, s') \<and>
               (ok \<longrightarrow> hd (snake s') = (x mod grid_size cfg, y mod grid_size cfg) \<and> alive s') \<and>
               (\<not> ok \<longrightarrow> (x mod grid_size cfg, y mod grid_size cfg) |\<in>| snake_set s \<and> \<not> alive s')))"
proof (intro conjI impI)
  assume "\<not> wrap_walls cfg"
  then show "move cfg rnd s = Inr (False, s\<lparr>direction := pending_direction s, alive := False\<rparr>)"
    using assms by (simp add: move_result)
next
  assume w: "wrap_walls cfg \<and> 0 < grid_size cfg"
  then show "in_bounds cfg (x mod grid_size cfg) (y mod grid_size cfg)"
    by (simp add: in_bounds_def)
next
  assume w: "wrap_walls cfg \<and> 0 < grid_size cfg" and "x = - 1"
  then show "x mod grid_size cfg = grid_size cfg - 1"
    by (simp add: zmod_minus1)
next
  assume w: "wrap_walls cfg \<and> 0 < grid_size cfg" and "x = grid_size cfg"
  then show "x mod grid_size cfg = 0" by simp
next
  assume w: "wrap_walls cfg \<and> 0 < grid_size cfg" and "y = - 1"
  then show "y mod grid_size cfg = grid_size cfg - 1"
    by (simp add: zmod_minus1)
next
  assume w: "wrap_walls cfg \<and> 0 < grid_size cfg" and "y = grid_size cfg"
  then show "y mod grid_size cfg = 0" by simp
next
  assume w: "wrap_walls cfg \<and> 0 < grid_size cfg"
  have nh: "next_head (s\<lparr>direction := pending_direction s\<rparr>) (pending_direction s) = Inr (x, y)"
    using assms(2) by (simp add: next_head_def)
  show "move cfg rnd s =
          advance cfg rnd (s\<lparr>direction := pending_direction s\<rparr>)
            (x mod grid_size cfg, y mod grid_size cfg)"
    using assms(1) w by (simp add: move_def Let_def nh)
next
  assume w: "wrap_walls cfg \<and> 0 < grid_size cfg"
  let ?n = "(x mod grid_size cfg, y mod grid_size cfg)"
  have c: "candidate cfg x y = ?n" using w by (simp add: candidate_def)
  have ne: "snake s \<noteq> []" using assms(2) by (auto simp: next_head_def)
  have ne': "butlast (snake s) @ [last (snake s)] = snake s" using ne by simp
  show "\<exists>ok s'. move cfg rnd s = Inr (ok, s') \<and>
               (ok \<longrightarrow> hd (snake s') = ?n \<and> alive s') \<and>
               (\<not> ok \<longrightarrow> ?n |\<in>| snake_set s \<and> \<not> alive s')"
  proof (cases "?n |\<in>| snake_set s \<and> \<not> (?n |\<notin>| apples s \<and> ?n = last (snake s))")
    case True
    then have "move cfg rnd s = Inr (False, s\<lparr>direction := pending_direction s, alive := False\<rparr>)"
      using assms(1,2) w by (simp add: move_result c)
    then show ?thesis using True by (intro exI [of _ False] exI [of _ "s\<lparr>direction := pending_direction s, alive := False\<rparr>"]) simp
  next
    case False
    let ?s3 = "if ?n |\<in>| apples s then grown s ?n else slid s ?n"
    have m: "move cfg rnd s = Inr (True, replenish_apples cfg rnd ?s3)"
      using assms(1,2) w False by (simp add: move_result c)
    have "hd (snake ?s3) = ?n" "alive ?s3"
      using assms(1) by (simp_all add: grown_def slid_def)
    then show ?thesis using m by (intro exI [of _ True] exI [of _ "replenish_apples cfg rnd ?s3"]) simp
  qed
qed

theorem move_wall_rule_witness:
  "(\<exists>s. reset edge_config draw_first = Inr s \<and>
        next_head s (pending_direction s) = Inr (3, 1) \<and> \<not> in_bounds edge_config 3 1 \<and>
        move edge_config draw_first s = Inr (False, s\<lparr>direction := ''right'', alive := False\<rparr>)) \<and>
   (\<exists>s. reset (edge_config\<lparr>wrap_walls := True\<rparr>) draw_first = Inr s \<and>
        next_head s (pending_direction s) = Inr (3, 1) \<and>
        in_bounds (edge_config\<lparr>wrap_walls := True\<rparr>) 0 1 \<and>
        move (edge_config\<lparr>wrap_walls := True\<rparr>) draw_first s =
          advance (edge_config\<lparr>wrap_walls := True\<rparr>) draw_first (s\<lparr>direction := ''right''\<rparr>) (0, 1))"
proof
  let ?c = "edge_config"
  have g: "grid_size ?c = 3" "initial_length ?c = 3" "\<not> wrap_walls ?c"
    by (simp_all add: edge_config_def)
  then obtain s where s: "reset ?c draw_first = Inr s" using reset_ok [of ?c draw_first] by auto
  note sh = reset_shape [OF s]
  have sn: "snake s = [(2, 1), (1, 1), (0, 1)]" using sh(2) g by (simp add: spawn_positions_3_3)
  have nh: "next_head s (pending_direction s) = Inr (3, 1)"
    by (simp add: next_head_def sn sh(5))
  have ob: "\<not> in_bounds ?c 3 1" by (simp add: in_bounds_def g)
  from move_wall_rule [OF sh(7) nh ob, of draw_first] g(3) s nh ob sh(5)
  show "\<exists>s. reset ?c draw_first = Inr s \<and>
        next_head s (pending_direction s) = Inr (3, 1) \<and> \<not> in_bounds ?c 3 1 \<and>
        move ?c draw_first s = Inr (False, s\<lparr>direction := ''right'', alive := False\<rparr>)"
    by auto
next
  let ?c = "edge_config\<lparr>wrap_walls := True\<rparr>"
  have g: "grid_size ?c = 3" "initial_length ?c = 3" "wrap_walls ?c"
    by (simp_all add: edge_config_def)
  then obtain s where s: "reset ?c draw_first = Inr s" using reset_ok [of ?c draw_first] by auto
  note sh = reset_shape [OF s]
  have sn: "snake s = [(2, 1), (1, 1), (0, 1)]" using sh(2) g by (simp add: spawn_positions_3_3)
  have nh: "next_head s (pending_direction s) = Inr (3, 1)"
    by (simp add: next_head_def sn sh(5))
  have ob: "\<not> in_bounds ?c 3 1" by (simp add: in_bounds_def g)
  from move_wall_rule [OF sh(7) nh ob, of draw_first] g s nh sh(5)
  show "\<exists>s. reset ?c draw_first = Inr s \<and>
        next_head s (pending_direction s) = Inr (3, 1) \<and> in_bounds ?c 0 1 \<and>
        move ?c draw_first s = advance ?c draw_first (s\<lparr>direction := ''right''\<rparr>) (0, 1)"
    by auto
qed

text \<open>
  C5. After a successful growing move (the candidate head is an apple) the snake is the
  candidate head in front of the old snake: one cell longer, the tail kept; the score is
  one higher; the eaten apple is no apple any more; and no cell was added to the free
  tiles.
\<close>

theorem growing_move:
  assumes "move cfg rnd s = Inr (True, s')"
    and "next_head s (pending_direction s) = Inr (x, y)"
    and "candidate cfg x y |\<in>| apples s"
  shows "snake s' = candidate cfg x y # snake s \<and>
         length (snake s') = length (snake s) + 1 \<and>
         last (snake s') = last (snake s) \<and>
         score s' = score s + 1 \<and>
         candidate cfg x y |\<notin>| apples s' \<and>
         apples s' |\<subseteq>| (apples s |-| {|candidate cfg x y|}) |\<union>| free_tiles s \<and>
         free_tiles s' |\<subseteq>| free_tiles s \<and>
         snake_set s' = finsert (candidate cfg x y) (snake_set s)"
proof -
  let ?n = "candidate cfg x y"
  note r = move_ok_result [OF assms(1,2)]
  have s': "s' = replenish_apples cfg rnd (grown s ?n)" using r(6) assms(3) by simp
  have f: "free_tiles s' |\<subseteq>| free_tiles (grown s ?n)"
    unfolding s' by (rule replenish_apples_free)
  have a: "apples s' = apples (grown s ?n) |\<union>| (free_tiles (grown s ?n) |-| free_tiles s')"
    unfolding s' by (rule replenish_apples_apples)
  have g: "apples (grown s ?n) = apples s |-| {|?n|}" "free_tiles (grown s ?n) = free_tiles s |-| {|?n|}"
    by (simp_all add: grown_def)
  have 1: "snake s' = ?n # snake s" by (simp add: s' grown_def)
  have 2: "last (snake s') = last (snake s)" using r(2) by (simp add: 1)
  have 3: "score s' = score s + 1" by (simp add: s' grown_def)
  have 4: "?n |\<notin>| apples s'" unfolding a g by auto
  have 5: "apples s' |\<subseteq>| (apples s |-| {|?n|}) |\<union>| free_tiles s" unfolding a g by auto
  have 6: "free_tiles s' |\<subseteq>| free_tiles s" using f unfolding g by auto
  have 7: "snake_set s' = finsert ?n (snake_set s)" by (simp add: s' grown_def)
  from 1 2 3 4 5 6 7 show ?thesis by simp
qed

theorem growing_move_witness:
  "\<exists>s'. move scenario_config draw_first scenario_start = Inr (True, s') \<and>
        snake s' = [(3, 2), (2, 2), (1, 2), (0, 2)] \<and> score s' = 1 \<and>
        (3, 2) |\<in>| apples scenario_start \<and> (3, 2) |\<notin>| apples s' \<and>
        free_tiles s' |\<subseteq>| free_tiles scenario_start"
proof -
  from scenario_eat obtain s' where m: "move scenario_config draw_first scenario_start = Inr (True, s')"
    by (cases "move scenario_config draw_first scenario_start") auto
  have nh: "next_head scenario_start (pending_direction scenario_start) = Inr (3, 2)"
    by (simp add: next_head_def scenario_start_def)
  have c: "candidate scenario_config 3 2 = (3, 2)"
    by (simp add: candidate_def scenario_config_def)
  have a: "candidate scenario_config 3 2 |\<in>| apples scenario_start"
    by (simp add: c scenario_start_def)
  from growing_move [OF m nh a] m a show ?thesis
    by (simp add: c scenario_start_def)
qed

text \<open>
  C10. In every reachable state the length of the snake is \<open>initial_length + score\<close>
  and the score is not negative, so the snake is never shorter than \<open>initial_length\<close>.
  The snake never shrinks: a \<open>move\<close> from a reachable state keeps the length or adds
  one cell and never lowers the score, \<open>queue_direction\<close> changes neither, and so no
  sequence of calls ends with a shorter snake. When \<open>initial_length\<close> is at least 2 the
  snake never has one cell, and \<open>queue_direction\<close> rejects the opposite of the current
  direction in every reachable state.
\<close>

theorem length_is_initial_plus_score:
  assumes "reachable cfg s"
  shows "int (length (snake s)) = initial_length cfg + score s \<and>
         0 \<le> score s \<and>
         initial_length cfg \<le> int (length (snake s)) \<and>
         (\<forall>rnd ok s'. move cfg rnd s = Inr (ok, s') \<longrightarrow>
            length (snake s) \<le> length (snake s') \<and>
            length (snake s') \<le> length (snake s) + 1 \<and>
            score s \<le> score s' \<and>
            int (length (snake s')) = initial_length cfg + score s') \<and>
         (\<forall>d. length (snake (queue_direction d s)) = length (snake s) \<and>
              score (queue_direction d s) = score s) \<and>
         (\<forall>cs s'. play cfg cs s = Inr s' \<longrightarrow>
            length (snake s) \<le> length (snake s') \<and>
            initial_length cfg \<le> int (length (snake s'))) \<and>
         (2 \<le> initial_length cfg \<longrightarrow>
            2 \<le> length (snake s) \<and> length (snake s) \<noteq> 1 \<and>
            (\<forall>d. map_of opposites d = Some (direction s) \<longrightarrow> queue_direction d s = s))"
proof -
  note l = reachable_length_score [OF assms]
  have mv: "length (snake s) \<le> length (snake s') \<and>
            length (snake s') \<le> length (snake s) + 1 \<and>
            score s \<le> score s' \<and>
            int (length (snake s')) = initial_length cfg + score s'"
    if m: "move cfg rnd s = Inr (ok, s')" for rnd ok s'
  proof -
    have r: "reachable cfg s'" using assms m by (rule reach_move)
    note l' = reachable_length_score [OF r]
    note d = move_length_score [OF m]
    have up: "length (snake s') \<le> length (snake s) + 1"
    proof (cases "alive s")
      case False
      then show ?thesis using m by (simp add: move_def)
    next
      case True
      from m True obtain x y where nh: "next_head s (pending_direction s) = Inr (x, y)"
        by (cases "next_head s (pending_direction s)") (auto simp: move_result)
      then have ne: "snake s \<noteq> []" by (auto simp: next_head_def)
      show ?thesis
        using m True ne unfolding move_result nh
        by (auto simp: grown_def slid_def split: if_splits)
    qed
    have "length (snake s) \<le> length (snake s')" using d by linarith
    then show ?thesis using up d l' by simp
  qed
  have qd: "length (snake (queue_direction d s)) = length (snake s) \<and>
            score (queue_direction d s) = score s" for d
    by (simp add: queue_direction_def split: option.splits)
  have pl: "length (snake s) \<le> length (snake s') \<and> initial_length cfg \<le> int (length (snake s'))"
    if p: "play cfg cs s = Inr s'" for cs s'
  proof -
    have "length (snake s) \<le> length (snake s')" using play_length_mono [OF p] by simp
    then show ?thesis using l by linarith
  qed
  have rv: "\<forall>d. map_of opposites d = Some (direction s) \<longrightarrow> queue_direction d s = s"
    if "2 \<le> initial_length cfg"
  proof (intro allI impI)
    fix d assume "map_of opposites d = Some (direction s)"
    moreover have "1 < length (snake s)" using l that by linarith
    ultimately show "queue_direction d s = s" by (simp add: queue_direction_def)
  qed
  have two: "2 \<le> length (snake s) \<and> length (snake s) \<noteq> 1" if "2 \<le> initial_length cfg"
    using l that by linarith
  have base: "int (length (snake s)) = initial_length cfg + score s \<and> 0 \<le> score s \<and>
              initial_length cfg \<le> int (length (snake s))"
    using l by linarith
  from base mv qd pl rv two show ?thesis by blast
qed

theorem length_is_initial_plus_score_witness:
  "\<exists>s'. move scenario_config draw_first scenario_start = Inr (True, s') \<and>
        play scenario_config [Move draw_first] scenario_start = Inr s' \<and>
        reachable scenario_config s' \<and>
        length (snake scenario_start) = 3 \<and> score scenario_start = 0 \<and>
        length (snake s') = 4 \<and> score s' = 1 \<and>
        int (length (snake s')) = initial_length scenario_config + score s' \<and>
        length (snake scenario_start) \<le> length (snake s') \<and>
        2 \<le> initial_length scenario_config \<and>
        length (snake s') \<noteq> 1 \<and>
        queue_direction ''left'' s' = s'"
proof -
  from scenario_eat obtain s' where m: "move scenario_config draw_first scenario_start = Inr (True, s')"
    and sn: "snake s' = [(3, 2), (2, 2), (1, 2), (0, 2)]" and sc: "score s' = 1"
    by (cases "move scenario_config draw_first scenario_start") auto
  have r: "reachable scenario_config s'" using scenario_start_reachable m by (rule reach_move)
  have d: "direction s' = ''right''"
  proof -
    have "alive scenario_start" by (simp add: scenario_start_def)
    moreover have "next_head scenario_start (pending_direction scenario_start) = Inr (3, 2)"
      by (simp add: next_head_def scenario_start_def)
    ultimately show ?thesis
      using m by (auto simp: move_result grown_def slid_def scenario_start_def split: if_splits)
  qed
  have i: "initial_length scenario_config = 3" by (simp add: scenario_config_def)
  have o: "map_of opposites ''left'' = Some ''right''" by (simp add: opposites_lookup)
  have 0: "length (snake scenario_start) = 3" "score scenario_start = 0"
    by (simp_all add: scenario_start_def)
  have p: "play scenario_config [Move draw_first] scenario_start = Inr s'" by (simp add: m)
  from length_is_initial_plus_score [OF scenario_start_reachable] m
  have 1: "length (snake scenario_start) \<le> length (snake s')" by blast
  from length_is_initial_plus_score [OF scenario_start_reachable] p
  have 3: "initial_length scenario_config \<le> int (length (snake s'))" by blast
  from length_is_initial_plus_score [OF r] i
  have 2: "int (length (snake s')) = initial_length scenario_config + score s'"
    "length (snake s') \<noteq> 1" "queue_direction ''left'' s' = s'"
    using o d by auto
  from m p r 0 sn sc 1 2 3 i show ?thesis by simp
qed

text \<open>
  C4, as amended. After a successful non-growing move from a reachable state the length
  of the snake and the score are unchanged (the candidate head is pushed, the tail
  popped); and when the candidate head is not the tail cell, the tail cell is a free tile
  after the call and no apple was placed. (Nothing is said of the tail cell when the head
  steps onto it.)
\<close>

theorem nongrowing_move:
  assumes "reachable cfg s"
    and "move cfg rnd s = Inr (True, s')"
    and "next_head s (pending_direction s) = Inr (x, y)"
    and "candidate cfg x y |\<notin>| apples s"
  shows "length (snake s') = length (snake s) \<and>
         snake s' = candidate cfg x y # butlast (snake s) \<and>
         score s' = score s \<and>
         (candidate cfg x y \<noteq> last (snake s) \<or> candidate cfg x y |\<notin>| snake_set s \<longrightarrow>
            last (snake s) |\<in>| free_tiles s' \<and> apples s' = apples s)"
proof -
  let ?n = "candidate cfg x y"
  note r = move_ok_result [OF assms(2,3)]
  note c = reachable_covered [OF assms(1), unfolded covered_def]
  have s': "s' = replenish_apples cfg rnd (slid s ?n)" using r(6) assms(4) by simp
  have 1: "snake s' = ?n # butlast (snake s)" by (simp add: s' slid_def)
  have 2: "length (snake s') = length (snake s)" using r(2) by (simp add: 1)
  have 3: "score s' = score s" by (simp add: s' slid_def)
  have 4: "last (snake s) |\<in>| free_tiles s' \<and> apples s' = apples s"
    if "?n \<noteq> last (snake s) \<or> ?n |\<notin>| snake_set s"
  proof -
    have nss: "?n |\<notin>| snake_set s" using that r(5) by blast
    have "in_bounds cfg (fst ?n) (snd ?n)"
    proof (cases "wrap_walls cfg")
      case True
      then show ?thesis using c by (simp add: candidate_def in_bounds_def Let_def)
    next
      case False
      then show ?thesis using r(4) by (simp add: candidate_def)
    qed
    then have "?n |\<in>| snake_set s |\<union>| apples s |\<union>| free_tiles s"
      using c by (metis prod.collapse)
    then have nf: "?n |\<in>| free_tiles s" using nss assms(4) by auto
    have "fcard (free_tiles (slid s ?n)) \<le> Suc (fcard (free_tiles s |-| {|?n|}))"
      by (simp add: slid_def fcard_finsert_if)
    also have "Suc (fcard (free_tiles s |-| {|?n|})) = fcard (free_tiles s)"
      using nf by (metis fcard_Suc_fminus1)
    finally have le: "fcard (free_tiles (slid s ?n)) \<le> fcard (free_tiles s)" .
    have a: "apples (slid s ?n) = apples s" by (simp add: slid_def)
    have c3: "min (apples_cfg cfg) (int (fcard (free_tiles s))) \<le> int (fcard (apples s))"
      using c by blast
    have "min (apples_cfg cfg) (int (fcard (free_tiles (slid s ?n))))
                       \<le> int (fcard (apples (slid s ?n)))"
      unfolding a using le c3 by linarith
    then have "s' = slid s ?n" unfolding s' by (rule replenish_apples_at_target)
    then show ?thesis by (simp add: slid_def)
  qed
  from 1 2 3 4 show ?thesis by blast
qed

theorem nongrowing_move_witness:
  "\<exists>s'. move scenario_config draw_first (queue_direction ''up'' scenario_start) = Inr (True, s') \<and>
        snake s' = [(2, 1), (2, 2), (1, 2)] \<and> score s' = 0 \<and>
        (0, 2) |\<in>| free_tiles s' \<and> apples s' = apples scenario_start"
proof -
  let ?s = "queue_direction ''up'' scenario_start"
  have q: "?s = scenario_start\<lparr>pending_direction := ''up''\<rparr>"
    by (simp add: queue_direction_def opposites_lookup scenario_start_def)
  from scenario_up obtain s' where m: "move scenario_config draw_first ?s = Inr (True, s')"
    by (cases "move scenario_config draw_first ?s") auto
  have r: "reachable scenario_config ?s"
    using scenario_start_reachable by (rule reach_queue)
  have nh: "next_head ?s (pending_direction ?s) = Inr (2, 1)"
    unfolding q by (simp add: next_head_def scenario_start_def)
  have c: "candidate scenario_config 2 1 = (2, 1)"
    by (simp add: candidate_def scenario_config_def)
  have a: "candidate scenario_config 2 1 |\<notin>| apples ?s"
    unfolding q by (simp add: c scenario_start_def)
  have l: "last (snake ?s) = (0, 2)" "butlast (snake ?s) = [(2, 2), (1, 2)]" "score ?s = 0"
    "apples ?s = apples scenario_start"
    unfolding q by (simp_all add: scenario_start_def)
  from nongrowing_move [OF r m nh a] m show ?thesis
    unfolding c l by simp
qed

text \<open>
  C4, as stated, fails. On the 4 by 4 grid the snake has eaten all thirteen apples and
  fills the grid; its head is next to its tail. The next \<open>move\<close> steps onto the tail
  cell (0,2): it succeeds and does not grow, the tail cell is added to the free tiles, and
  \<open>replenish_apples\<close>, being one apple short, draws the only free tile. After the call
  the previous tail cell is an apple (under the head) and not a free tile.
\<close>

theorem tail_freed_fails_on_full_grid:
  "game_after full_config draw_first fill_calls = Inr full_grid \<and>
   next_head full_grid (pending_direction full_grid) = Inr (0, 2) \<and>
   candidate full_config 0 2 = (0, 2) \<and>
   (0, 2) |\<notin>| apples full_grid \<and>
   last (snake full_grid) = (0, 2) \<and>
   move full_config draw_first full_grid = Inr (True, after_full_grid) \<and>
   length (snake after_full_grid) = length (snake full_grid) \<and>
   last (snake full_grid) |\<notin>| free_tiles after_full_grid \<and>
   last (snake full_grid) |\<in>| apples after_full_grid \<and>
   hd (snake after_full_grid) = last (snake full_grid)"
  using full_grid_run full_grid_move
  by (simp add: full_grid_def after_full_grid_def next_head_def candidate_def full_config_def)

text \<open>
  C9 fails on the code. When the head steps onto the tail cell, \<open>move\<close> adds the cell
  to \<open>snake_set\<close> (it is there already) and then discards the popped tail, the same
  cell, from \<open>snake_set\<close>: the head's cell is missing from \<open>snake_set\<close> for as long
  as it stays in the snake. In this run the head comes back to that cell while it is the
  fourth cell of the snake; no collision is detected and the snake holds (4,4) twice.
\<close>

theorem snake_crosses_itself:
  "\<exists>s. game_after six_config draw_first (cross_calls @ [Move draw_first]) = Inr s \<and>
       reachable six_config s \<and> alive s \<and>
       snake s = [(4, 4), (5, 4), (5, 5), (4, 5), (4, 4), (4, 3)] \<and>
       \<not> distinct (snake s)"
proof -
  from cross_run obtain s where s: "game_after six_config draw_first cross_calls = Inr s"
    and m: "(case move six_config draw_first s of
           Inl e \<Rightarrow> False
         | Inr (ok, s') \<Rightarrow> ok \<and> alive s' \<and> snake s' = [(4, 4), (5, 4), (5, 5), (4, 5), (4, 4), (4, 3)])"
    by (cases "game_after six_config draw_first cross_calls") auto
  from m obtain s' where s': "move six_config draw_first s = Inr (True, s')"
    and a: "alive s'" and sn: "snake s' = [(4, 4), (5, 4), (5, 5), (4, 5), (4, 4), (4, 3)]"
    by (cases "move six_config draw_first s") auto
  have "reachable six_config s" using s by (rule game_after_reachable)
  then have r: "reachable six_config s'" using s' by (rule reach_move)
  from s obtain s0 where r0: "reset six_config draw_first = Inr s0"
    and p: "play six_config cross_calls s0 = Inr s"
    by (auto simp: game_after_def split: sum.splits)
  have play_app: "play cfg (cs @ ds) t = (case play cfg cs t of Inl e \<Rightarrow> Inl e | Inr u \<Rightarrow> play cfg ds u)"
    for cfg cs ds t
  proof (induction cs arbitrary: t)
    case Nil
    then show ?case by simp
  next
    case (Cons c cs)
    then show ?case by (cases c) (auto split: sum.splits)
  qed
  have "game_after six_config draw_first (cross_calls @ [Move draw_first]) = Inr s'"
    by (simp add: game_after_def r0 play_app p s')
  then show ?thesis using r a sn by simp
qed

text \<open>
  C2 fails on the code in the same run, one call earlier: the candidate head (4,4) is a
  cell of the snake's body and not its tail, and \<open>move\<close> returns true. (The test is
  made against \<open>snake_set\<close>, for which lemma \<open>collision_rule_on_snake_set\<close> gives the
  rule as claimed; after a step onto the tail \<open>snake_set\<close> is no longer the set of the
  snake's cells.)
\<close>

theorem head_steps_on_body_and_lives:
  "\<exists>s s'. game_after six_config draw_first cross_calls = Inr s \<and>
       reachable six_config s \<and>
       snake s = [(5, 4), (5, 5), (4, 5), (4, 4), (4, 3), (5, 3)] \<and>
       next_head s (pending_direction s) = Inr (4, 4) \<and>
       candidate six_config 4 4 = (4, 4) \<and>
       (4, 4) \<in> set (snake s) \<and> (4, 4) \<noteq> last (snake s) \<and>
       move six_config draw_first s = Inr (True, s') \<and> alive s'"
proof -
  from cross_run obtain s where s: "game_after six_config draw_first cross_calls = Inr s"
    and sn: "snake s = [(5, 4), (5, 5), (4, 5), (4, 4), (4, 3), (5, 3)]"
    and pd: "pending_direction s = ''left''"
    and m: "(case move six_config draw_first s of
           Inl e \<Rightarrow> False
         | Inr (ok, s') \<Rightarrow> ok \<and> alive s' \<and> snake s' = [(4, 4), (5, 4), (5, 5), (4, 5), (4, 4), (4, 3)])"
    by (cases "game_after six_config draw_first cross_calls") auto
  from m obtain s' where s': "move six_config draw_first s = Inr (True, s')" and a: "alive s'"
    by (cases "move six_config draw_first s") auto
  have r: "reachable six_config s" using s by (rule game_after_reachable)
  have nh: "next_head s (pending_direction s) = Inr (4, 4)"
    by (simp add: next_head_def sn pd)
  have c: "candidate six_config 4 4 = (4, 4)" by (simp add: candidate_def six_config_def)
  from s r sn nh c s' a show ?thesis by auto
qed

text \<open>
  C1 fails on the code, from the same defect: after the step onto the tail the head's
  cell (3,4) is a free tile though the snake is on it; the snake eats an apple,
  \<open>replenish_apples\<close> draws (3,4) as the new apple, and when (3,4) is popped as the tail
  it is added to the free tiles again: (3,4) is an apple and a free tile at once.
\<close>

theorem apple_on_free_tile:
  "\<exists>s. game_after four_config (\<lambda>_. 26) apple_calls = Inr s \<and>
       reachable four_config s \<and> alive s \<and>
       (3, 4) |\<in>| apples s \<and> (3, 4) |\<in>| free_tiles s \<and>
       apples s |\<inter>| free_tiles s \<noteq> {||}"
proof -
  from apple_run obtain s where s: "game_after four_config (\<lambda>_. 26) apple_calls = Inr s"
    and a: "(3, 4) |\<in>| apples s" "(3, 4) |\<in>| free_tiles s" "alive s"
    by (cases "game_after four_config (\<lambda>_. 26) apple_calls") auto
  have "reachable four_config s" using s by (rule game_after_reachable)
  moreover have "apples s |\<inter>| free_tiles s \<noteq> {||}" using a by auto
  ultimately show ?thesis using s a by blast
qed

end
